theory Spec2Isabelle
  imports Complex_Main "HOL-Library.Word" "HOL-Library.Sublist"
begin

section \<open>JavaScript strings\<close>

text \<open>
  A JavaScript string is a sequence of UTF-16 code units. \<open>js\<close> writes an ASCII literal
  as such a sequence. \<open>endsWith\<close> is \<^verbatim>\<open>String.prototype.endsWith\<close> with one argument.
\<close>

type_synonym js_string = "16 word list"

definition js :: "string \<Rightarrow> js_string" where
  "js s = map of_char s"

definition endsWith :: "js_string \<Rightarrow> js_string \<Rightarrow> bool" where
  "endsWith s searchString =
     (length searchString \<le> length s \<and>
      drop (length s - length searchString) s = searchString)"

section \<open>Home page: the upload queue\<close>

text \<open>
  \<^verbatim>\<open>status: 'waiting', // waiting, uploading, completed, error\<close>
\<close>

datatype status = Waiting | Uploading | Completed | Error

record js_file =
  file_name :: js_string
  file_bytes :: "8 word list"

record queue_item =
  q_file :: js_file
  q_name :: js_string
  q_status :: status
  q_progress :: int
  q_error :: "js_string option"

text \<open>\<^verbatim>\<open>files.filter(file => file.name.endsWith('.pdf'))\<close>\<close>

definition pdfFiles :: "js_file list \<Rightarrow> js_file list" where
  "pdfFiles files = filter (\<lambda>f. endsWith (file_name f) (js ''.pdf'')) files"

text \<open>\<^verbatim>\<open>pdfFiles.map(file => ({file, name: file.name, status: 'waiting', progress: 0, error: null}))\<close>\<close>

definition initQueue :: "js_file list \<Rightarrow> queue_item list" where
  "initQueue fs =
     map (\<lambda>f. \<lparr>q_file = f, q_name = file_name f, q_status = Waiting,
                q_progress = 0, q_error = None\<rparr>) fs"

text \<open>
  The state of \<^verbatim>\<open>uploadWithConcurrency\<close>. The items of \<^verbatim>\<open>queue\<close> are objects
  with an identity; an item is named here by its position in \<^verbatim>\<open>queue\<close>.
  \<^item> \<open>pending\<close>: the array \<^verbatim>\<open>pending\<close>, front first;
  \<^item> \<open>active\<close>: the \<^verbatim>\<open>Set\<close> \<^verbatim>\<open>active\<close>;
  \<^item> \<open>requests\<close>: the files handed to \<^verbatim>\<open>apiService.uploadDocument\<close> so far, in the
    order of the calls (each call posts the file to \<^verbatim>\<open>/upload\<close>);
  \<^item> \<open>uploadQueue\<close>: the React state \<^verbatim>\<open>uploadQueue\<close>, with every queued updater applied.
\<close>

record upload_state =
  pending :: "nat list"
  active :: "nat set"
  requests :: "js_file list"
  uploadQueue :: "queue_item list"

text \<open>\<^verbatim>\<open>prev.map(q => q.name === item.name ? { ...q, <fields> } : q)\<close>\<close>

definition updateByName ::
  "js_string \<Rightarrow> (queue_item \<Rightarrow> queue_item) \<Rightarrow> queue_item list \<Rightarrow> queue_item list" where
  "updateByName nm f prev = map (\<lambda>q. if q_name q = nm then f q else q) prev"

text \<open>
  \<^verbatim>\<open>const pending = [...queue]; const active = new Set();\<close>, after
  \<^verbatim>\<open>setUploadQueue(queue)\<close> in \<^verbatim>\<open>handleFileUpload\<close>.
\<close>

definition initState :: "queue_item list \<Rightarrow> upload_state" where
  "initState queue =
     \<lparr>pending = [0..<length queue], active = {}, requests = [], uploadQueue = queue\<rparr>"

text \<open>
  One pass through the body of the inner loop:
  \<^verbatim>\<open>const item = pending.shift(); active.add(item); uploadFile(item);\<close>
  where \<^verbatim>\<open>uploadFile\<close> runs up to its first \<^verbatim>\<open>await\<close>: it marks every entry of
  \<^verbatim>\<open>uploadQueue\<close> that has the item's name as uploading, and issues the request.
\<close>

definition startUpload :: "queue_item list \<Rightarrow> upload_state \<Rightarrow> upload_state" where
  "startUpload queue st =
     (case pending st of
        [] \<Rightarrow> st
      | i # rest \<Rightarrow>
          st\<lparr>pending := rest,
             active := insert i (active st),
             requests := requests st @ [q_file (queue ! i)],
             uploadQueue :=
               updateByName (q_name (queue ! i)) (\<lambda>q. q\<lparr>q_status := Uploading\<rparr>)
                 (uploadQueue st)\<rparr>)"

text \<open>
  What happens to a request in flight: the progress callback fires, the request
  resolves, or it rejects with an error message. The \<^verbatim>\<open>finally\<close> block removes
  the item from \<^verbatim>\<open>active\<close>. An event for an item with no request in flight cannot
  happen; the model ignores it.
\<close>

datatype upload_event = Progress nat int | Resolved nat | Rejected nat js_string

fun uploadEvent :: "queue_item list \<Rightarrow> upload_event \<Rightarrow> upload_state \<Rightarrow> upload_state" where
  "uploadEvent queue (Progress i p) st =
     (if i \<in> active st
      then st\<lparr>uploadQueue :=
                updateByName (q_name (queue ! i)) (\<lambda>q. q\<lparr>q_progress := p\<rparr>) (uploadQueue st)\<rparr>
      else st)"
| "uploadEvent queue (Resolved i) st =
     (if i \<in> active st
      then st\<lparr>uploadQueue :=
                updateByName (q_name (queue ! i))
                  (\<lambda>q. q\<lparr>q_status := Completed, q_progress := 100\<rparr>) (uploadQueue st),
              active := active st - {i}\<rparr>
      else st)"
| "uploadEvent queue (Rejected i msg) st =
     (if i \<in> active st
      then st\<lparr>uploadQueue :=
                updateByName (q_name (queue ! i))
                  (\<lambda>q. q\<lparr>q_status := Error, q_error := Some msg\<rparr>) (uploadQueue st),
              active := active st - {i}\<rparr>
      else st)"

text \<open>
  The inner loop:
  \<^verbatim>\<open>while (active.size < maxConcurrent && pending.length > 0) { ... }\<close>
\<close>

function fill :: "queue_item list \<Rightarrow> nat \<Rightarrow> upload_state \<Rightarrow> upload_state" where
  "fill queue maxConcurrent st =
     (if card (active st) < maxConcurrent \<and> pending st \<noteq> []
      then fill queue maxConcurrent (startUpload queue st)
      else st)"
  by pat_completeness auto
termination
  by (relation "measure (\<lambda>(queue, maxConcurrent, st). length (pending st))")
     (auto simp: startUpload_def split: list.splits)

text \<open>
  The outer loop:
  \<^verbatim>\<open>while (pending.length > 0 || active.size > 0) { <inner loop>; await <100 ms> }\<close>
  The script lists, for each wait, the events that arrive during it. The loop
  returns when nothing is pending or active; \<open>None\<close> says that the script ended with
  uploads still pending or in flight.
\<close>

fun uploadLoop ::
  "queue_item list \<Rightarrow> nat \<Rightarrow> upload_event list list \<Rightarrow> upload_state \<Rightarrow> upload_state option" where
  "uploadLoop queue maxConcurrent script st =
     (if length (pending st) > 0 \<or> card (active st) > 0
      then (case script of
              [] \<Rightarrow> None
            | evs # rest \<Rightarrow>
                uploadLoop queue maxConcurrent rest
                  (foldl (\<lambda>s ev. uploadEvent queue ev s) (fill queue maxConcurrent st) evs))
      else Some st)"

text \<open>
  The states the upload routine can be in: the initial one, and those that follow by
  a pass of the inner loop (under its guard) or by an event.
\<close>

inductive reachable :: "queue_item list \<Rightarrow> nat \<Rightarrow> upload_state \<Rightarrow> bool"
  for queue :: "queue_item list" and maxConcurrent :: nat where
  init: "reachable queue maxConcurrent (initState queue)"
| start: "reachable queue maxConcurrent st \<Longrightarrow> card (active st) < maxConcurrent \<Longrightarrow>
          pending st \<noteq> [] \<Longrightarrow> reachable queue maxConcurrent (startUpload queue st)"
| event: "reachable queue maxConcurrent st \<Longrightarrow>
          reachable queue maxConcurrent (uploadEvent queue ev st)"

text \<open>
  The alerts of the upload handler, and what it leaves behind. The summary counts
  are taken from \<^verbatim>\<open>queue\<close>, the array built before the uploads. The reload of the
  document list after the loop and the timer that empties \<^verbatim>\<open>uploadQueue\<close> three
  seconds later act after the loop has returned and are left out.
\<close>

datatype alert = OnlyPdfAllowed | NonPdfExcluded nat | AllUploaded nat | Summary nat nat

record upload_report =
  alerts :: "alert list"
  posted :: "js_file list"
  queueAfter :: "queue_item list"

definition uploadWithConcurrency ::
  "queue_item list \<Rightarrow> nat \<Rightarrow> upload_event list list \<Rightarrow> (upload_state \<times> alert) option" where
  "uploadWithConcurrency queue maxConcurrent script =
     (case uploadLoop queue maxConcurrent script (initState queue) of
        None \<Rightarrow> None
      | Some st \<Rightarrow>
          (let completed = length (filter (\<lambda>q. q_status q = Completed) queue);
               failed = length (filter (\<lambda>q. q_status q = Error) queue)
           in Some (st, if failed = 0 then AllUploaded completed
                        else Summary completed failed)))"

text \<open>
  \<^verbatim>\<open>handleFileUpload\<close>, from the selected files, the script of upload events and the
  value of \<^verbatim>\<open>uploadQueue\<close> when the handler is called.
\<close>

definition handleFileUpload ::
  "js_file list \<Rightarrow> upload_event list list \<Rightarrow> queue_item list \<Rightarrow> upload_report option" where
  "handleFileUpload files script uploadQueue0 =
     (if length files = 0
      then Some \<lparr>alerts = [], posted = [], queueAfter = uploadQueue0\<rparr>
      else if length (pdfFiles files) = 0
      then Some \<lparr>alerts = [OnlyPdfAllowed], posted = [], queueAfter = uploadQueue0\<rparr>
      else
        (let excluded =
               (if length (pdfFiles files) \<noteq> length files
                then [NonPdfExcluded (length files - length (pdfFiles files))] else [])
         in case uploadWithConcurrency (initQueue (pdfFiles files)) 5 script of
              None \<Rightarrow> None
            | Some (st, summary) \<Rightarrow>
                Some \<lparr>alerts = excluded @ [summary], posted = requests st,
                      queueAfter = uploadQueue st\<rparr>))"

text \<open>A file with an ASCII name and no content, for the examples.\<close>

definition pdf :: "string \<Rightarrow> js_file" where
  "pdf nm = \<lparr>file_name = js nm, file_bytes = []\<rparr>"

definition six :: "js_file list" where
  "six = map pdf [''a.pdf'', ''b.pdf'', ''c.pdf'', ''d.pdf'', ''e.pdf'', ''f.pdf'']"

definition twins :: "js_file list" where
  "twins = map pdf [''a.pdf'', ''b.pdf'', ''c.pdf'', ''d.pdf'', ''e.pdf'', ''a.pdf'']"

definition seven :: "js_file list" where
  "seven = map pdf [''a.pdf'', ''b.pdf'', ''c.pdf'', ''d.pdf'', ''e.pdf'', ''f.pdf'', ''a.pdf'']"

definition mixed :: "js_file list" where
  "mixed = map pdf [''a.pdf'', ''notes.txt'', ''B.PDF'']"

text \<open>
  An upload-queue status moves forward when it keeps its value or follows one arrow of
  \<^verbatim>\<open>waiting -> uploading -> (completed | error)\<close>.
\<close>

definition forward :: "status \<Rightarrow> status \<Rightarrow> bool" where
  "forward a b =
     (a = b \<or> (a = Waiting \<and> b = Uploading) \<or>
      (a = Uploading \<and> (b = Completed \<or> b = Error)))"

section \<open>The API service\<close>

text \<open>
  A promise settles: it is fulfilled with a value or rejected with an error. The
  outcome of the HTTP adapter is an input of the model: fulfilled for a response
  whose status axios accepts, rejected for everything else (no connection, timeout,
  a status outside 2xx).
\<close>

record js_error =
  err_code :: "js_string option"
  err_message :: js_string

datatype 'a settled = Fulfilled 'a | Failed js_error

text \<open>
  The response interceptor's error handler:
  \<^verbatim>\<open>if (error.code === 'ECONNREFUSED') return Promise.reject(new Error(<text>)); return Promise.reject(error);\<close>
  The text is \<^verbatim>\<open>Backend <...>\<close>, 23 code units.
\<close>

definition backendDownMessage :: js_string where
  "backendDownMessage =
     [0x42, 0x61, 0x63, 0x6b, 0x65, 0x6e, 0x64, 0x20, 0xc11c, 0xbc84, 0xac00, 0x20,
      0xc2e4, 0xd589, 0xb418, 0xc9c0, 0x20, 0xc54a, 0xc558, 0xc2b5, 0xb2c8, 0xb2e4, 0x2e]"

definition interceptor :: "'a settled \<Rightarrow> 'a settled" where
  "interceptor r =
     (case r of
        Fulfilled response \<Rightarrow> Fulfilled response
      | Failed error \<Rightarrow>
          (if err_code error = Some (js ''ECONNREFUSED'')
           then Failed \<lparr>err_code = None, err_message = backendDownMessage\<rparr>
           else Failed error))"

text \<open>
  Every method of \<^verbatim>\<open>apiService\<close> has the shape
  \<^verbatim>\<open>try { const response = await api.<verb>(...); return response.data; } catch (error) { throw error; }\<close>
\<close>

definition rethrow :: "'a settled \<Rightarrow> 'a settled" where
  "rethrow r = (case r of Fulfilled response \<Rightarrow> Fulfilled response | Failed error \<Rightarrow> Failed error)"

definition checkHealth :: "'a settled \<Rightarrow> 'a settled" where
  "checkHealth http = rethrow (interceptor http)"

record source =
  src_doc_name :: js_string
  src_page :: int
  src_toc_section :: js_string
  src_confidence :: real

record ask_response =
  answer :: js_string
  sources :: "source list"

record ask_request =
  question :: js_string
  doc_name :: "js_string option"

text \<open>
  \<^verbatim>\<open>askQuestion(question, docName = null)\<close> posts \<^verbatim>\<open>{question, doc_name: docName}\<close>
  to \<^verbatim>\<open>/ask\<close>; \<open>backend\<close> is what the adapter answers to a request body.
\<close>

definition askQuestion ::
  "(ask_request \<Rightarrow> ask_response settled) \<Rightarrow> js_string \<Rightarrow> js_string option \<Rightarrow>
   ask_request \<times> ask_response settled" where
  "askQuestion backend q docName =
     (let body = \<lparr>question = q, doc_name = docName\<rparr>
      in (body, rethrow (interceptor (backend body))))"

section \<open>Home page: backend status and document list\<close>

datatype backend_status = Checking | Connected | Disconnected

text \<open>
  \<^verbatim>\<open>checkBackend\<close>: the new value of \<^verbatim>\<open>backendStatus\<close>, as the settlement of the
  promise the function returns.
\<close>

definition checkBackend :: "'a settled \<Rightarrow> backend_status settled" where
  "checkBackend http =
     (case checkHealth http of
        Fulfilled data \<Rightarrow> Fulfilled Connected
      | Failed error \<Rightarrow> Fulfilled Disconnected)"

text \<open>
  The handler of \<^verbatim>\<open>check-backend-status\<close> in the Electron main process. Its input is
  how \<^verbatim>\<open>await fetch('http://localhost:8000/health')\<close> ends: with a response, of which
  only \<^verbatim>\<open>ok\<close> is read, or with an exception.
\<close>

record fetch_response =
  ok :: bool
  http_status :: nat

definition checkBackendStatus :: "fetch_response settled \<Rightarrow> bool settled" where
  "checkBackendStatus fetched =
     (case fetched of
        Fulfilled response \<Rightarrow> Fulfilled (ok response)
      | Failed error \<Rightarrow> Fulfilled False)"

text \<open>
  A document of the list, with the fields the page reads (\<^verbatim>\<open>name\<close>, \<^verbatim>\<open>collections\<close>)
  and the field the interface description names (\<^verbatim>\<open>chunk_count\<close>). \<open>None\<close> is a field
  the object does not have.
\<close>

record document =
  name :: js_string
  collections :: "js_string list option"
  chunk_count :: "int option"








text \<open>
  \<^verbatim>\<open>handleDelete\<close>: whether the user confirms, how \<^verbatim>\<open>DELETE /documents/<docName>\<close>
  settles, and the value of \<^verbatim>\<open>documents\<close> that the updater receives. The result is
  the name in the request that was sent, if any, and the new value of \<^verbatim>\<open>documents\<close>.
\<close>

definition handleDelete ::
  "js_string \<Rightarrow> bool \<Rightarrow> 'a settled \<Rightarrow> document list \<Rightarrow> js_string option \<times> document list" where
  "handleDelete docName confirmed deleted prev =
     (if \<not> confirmed then (None, prev)
      else case rethrow (interceptor deleted) of
             Fulfilled data \<Rightarrow> (Some docName, filter (\<lambda>doc. name doc \<noteq> docName) prev)
           | Failed error \<Rightarrow> (Some docName, prev))"

section \<open>Chat page\<close>

text \<open>
  \<^verbatim>\<open>String.prototype.trim\<close> removes the code units of WhiteSpace and LineTerminator
  from both ends.
\<close>

definition isWhiteSpace :: "16 word \<Rightarrow> bool" where
  "isWhiteSpace c =
     (c \<in> {0x9, 0xA, 0xB, 0xC, 0xD, 0x20, 0xA0, 0x1680, 0x2028, 0x2029, 0x202F, 0x205F,
            0x3000, 0xFEFF} \<or> (0x2000 \<le> c \<and> c \<le> 0x200A))"

definition trim :: "js_string \<Rightarrow> js_string" where
  "trim s = rev (dropWhile isWhiteSpace (rev (dropWhile isWhiteSpace s)))"

datatype message_type = User | Assistant | ErrorMessage

record message =
  msg_type :: message_type
  content :: js_string
  msg_sources :: "source list option"
  timestamp :: nat

record chat_state =
  messages :: "message list"
  inputValue :: js_string
  loading :: bool

text \<open>
  \<^verbatim>\<open>const docName = location.state?.docName || null;\<close> The argument is
  \<^verbatim>\<open>location.state?.docName\<close>, \<open>None\<close> when it is undefined. The empty string is falsy.
\<close>

definition routeDocName :: "js_string option \<Rightarrow> js_string option" where
  "routeDocName stateDocName =
     (case stateDocName of None \<Rightarrow> None | Some d \<Rightarrow> if d = [] then None else Some d)"

text \<open>The text before \<^verbatim>\<open>error.message\<close> in an error message of the chat, 30 code units.\<close>

definition apology :: js_string where
  "apology =
     [0xc8c4, 0xc1a1, 0xd569, 0xb2c8, 0xb2e4, 0x2e, 0x20, 0xb2f5, 0xbcc0, 0xc744, 0x20,
      0xc0dd, 0xc131, 0xd558, 0xb294, 0x20, 0xc911, 0x20, 0xc624, 0xb958, 0xac00, 0x20,
      0xbc1c, 0xc0dd, 0xd588, 0xc2b5, 0xb2c8, 0xb2e4, 0x3a, 0x20]"

text \<open>
  \<^verbatim>\<open>handleSend\<close> up to its \<^verbatim>\<open>await\<close>: the guard, then the three state updates. The
  second component is \<^verbatim>\<open>userMessage\<close> when the send is accepted. \<open>now\<close> is the reading
  of the clock.
\<close>

definition handleSendStart :: "nat \<Rightarrow> chat_state \<Rightarrow> chat_state \<times> js_string option" where
  "handleSendStart now st =
     (if trim (inputValue st) = [] \<or> loading st then (st, None)
      else
        (let userMessage = trim (inputValue st)
         in (st\<lparr>inputValue := [],
                messages := messages st @
                  [\<lparr>msg_type = User, content = userMessage, msg_sources = None,
                    timestamp = now\<rparr>],
                loading := True\<rparr>,
             Some userMessage)))"

text \<open>\<^verbatim>\<open>handleSend\<close> after the \<^verbatim>\<open>await\<close>: the \<^verbatim>\<open>try\<close>, \<^verbatim>\<open>catch\<close> and \<^verbatim>\<open>finally\<close> blocks.\<close>

definition handleSendSettle :: "ask_response settled \<Rightarrow> nat \<Rightarrow> chat_state \<Rightarrow> chat_state" where
  "handleSendSettle asked now st =
     (case asked of
        Fulfilled response \<Rightarrow>
          st\<lparr>messages := messages st @
                [\<lparr>msg_type = Assistant, content = answer response,
                  msg_sources = Some (sources response), timestamp = now\<rparr>],
             loading := False\<rparr>
      | Failed error \<Rightarrow>
          st\<lparr>messages := messages st @
                [\<lparr>msg_type = ErrorMessage, content = apology @ err_message error,
                  msg_sources = None, timestamp = now\<rparr>],
             loading := False\<rparr>)"

text \<open>
  \<^verbatim>\<open>handleSend\<close> from start to end. The second component is the body of the request
  that was posted to \<^verbatim>\<open>/ask\<close>, if any.
\<close>

definition handleSend ::
  "(ask_request \<Rightarrow> ask_response settled) \<Rightarrow> js_string option \<Rightarrow> nat \<Rightarrow> nat \<Rightarrow> chat_state \<Rightarrow>
   chat_state \<times> ask_request option" where
  "handleSend backend docName now later st =
     (case handleSendStart now st of
        (st1, None) \<Rightarrow> (st1, None)
      | (st1, Some userMessage) \<Rightarrow>
          (case askQuestion backend userMessage docName of
             (body, asked) \<Rightarrow> (handleSendSettle asked later st1, Some body)))"


text \<open>
  What the page shows of the sources of a message:
  \<^verbatim>\<open>{source.doc_name}\<close>, \<^verbatim>\<open>p.{source.page}\<close>, \<^verbatim>\<open>{source.toc_section}\<close>.
\<close>

definition renderSources :: "message \<Rightarrow> (js_string \<times> int \<times> js_string) list" where
  "renderSources m =
     (case msg_sources m of
        None \<Rightarrow> []
      | Some ss \<Rightarrow>
          if length ss > 0
          then map (\<lambda>s. (src_doc_name s, src_page s, src_toc_section s)) ss
          else [])"

section \<open>The retrieval core, from its specification\<close>

type_synonym chunk_id = "nat \<times> nat"

text \<open>
  Modelled from the spec: the score fusion of the Hybrid Retriever (section 4.6), whose
  code is not among the sources. "Both score streams are independently min-max
  normalized to [0,1] before combination"; the fused score is "a weighted,
  score-normalized sum"; a candidate "appearing in only one list" keeps its
  "normalized single-source score, scaled by that source's weight". The spec does
  not say what a stream of equal scores is normalized to: that value is the
  parameter \<open>flat\<close>.
\<close>

definition minmax_normalize :: "real \<Rightarrow> real list \<Rightarrow> real list" where
  "minmax_normalize flat xs =
     (if xs = [] then []
      else
        (let lo = Min (set xs); hi = Max (set xs)
         in if hi = lo then map (\<lambda>x. flat) xs
            else map (\<lambda>x. (x - lo) / (hi - lo)) xs))"

definition normalize_stream :: "real \<Rightarrow> (chunk_id \<times> real) list \<Rightarrow> (chunk_id \<times> real) list" where
  "normalize_stream flat stream =
     zip (map fst stream) (minmax_normalize flat (map snd stream))"

definition fused_score ::
  "real \<Rightarrow> real \<Rightarrow> real \<Rightarrow> (chunk_id \<times> real) list \<Rightarrow> (chunk_id \<times> real) list \<Rightarrow>
   chunk_id \<Rightarrow> real" where
  "fused_score flat w_lexical w_vector lexical vector c =
     (case map_of (normalize_stream flat lexical) c of
        None \<Rightarrow> 0 | Some s \<Rightarrow> w_lexical * s) +
     (case map_of (normalize_stream flat vector) c of
        None \<Rightarrow> 0 | Some s \<Rightarrow> w_vector * s)"

text \<open>
  Modelled from the spec: the RetrievalCandidate of section 3, "(chunk ID, lexical
  score or null, vector score or null, fused score)", one per chunk ID of either
  stream.
\<close>

record retrieval_candidate =
  cand_chunk :: chunk_id
  lexical_score :: "real option"
  vector_score :: "real option"
  fused :: real

definition fuse ::
  "real \<Rightarrow> real \<Rightarrow> real \<Rightarrow> (chunk_id \<times> real) list \<Rightarrow> (chunk_id \<times> real) list \<Rightarrow>
   retrieval_candidate list" where
  "fuse flat w_lexical w_vector lexical vector =
     map (\<lambda>c. \<lparr>cand_chunk = c, lexical_score = map_of lexical c,
                vector_score = map_of vector c,
                fused = fused_score flat w_lexical w_vector lexical vector c\<rparr>)
       (remdups (map fst lexical @ map fst vector))"

text \<open>
  Modelled from the spec: the two indexes and the ingestion, deletion and query paths
  of the Query Orchestrator (sections 3, 4.8 and 7), whose code is not among the
  sources. A chunk ID is "document hash + sequence number". An upload whose content
  hash is indexed already "is a no-op against the indexes". Otherwise it writes both
  stores; "if the vector-store write succeeds but the lexical-index write fails (or
  vice versa), the orchestrator issues a compensating delete against the
  already-written store before surfacing the failure"; \<open>IndexConsistencyError\<close> is
  "dual-index write diverged and compensating delete itself failed". Whether a write
  or the compensating delete succeeds is an input. A delete "removes all chunk IDs
  for that document from both indexes", with \<open>NotFoundError\<close> for an unknown name. A
  query reads both indexes.
\<close>

record index_record =
  rec_chunk :: chunk_id
  rec_doc :: js_string

record indexes =
  lexical_index :: "index_record list"
  vector_store :: "index_record list"

definition consistent :: "indexes \<Rightarrow> bool" where
  "consistent ix =
     (set (map rec_chunk (lexical_index ix)) = set (map rec_chunk (vector_store ix)))"

datatype pipeline_error = StoreWriteFailed | IndexConsistencyError | NotFoundError

record store_outcomes =
  vector_write_ok :: bool
  lexical_write_ok :: bool
  compensation_ok :: bool

definition chunk_records :: "nat \<Rightarrow> js_string \<Rightarrow> nat \<Rightarrow> index_record list" where
  "chunk_records content_hash doc n =
     map (\<lambda>i. \<lparr>rec_chunk = (content_hash, i), rec_doc = doc\<rparr>) [0..<n]"

definition upsert :: "index_record list \<Rightarrow> index_record list \<Rightarrow> index_record list" where
  "upsert recs store =
     filter (\<lambda>r. rec_chunk r \<notin> set (map rec_chunk recs)) store @ recs"

definition remove_chunks :: "chunk_id list \<Rightarrow> index_record list \<Rightarrow> index_record list" where
  "remove_chunks ids store = filter (\<lambda>r. rec_chunk r \<notin> set ids) store"

definition known_hash :: "nat \<Rightarrow> indexes \<Rightarrow> bool" where
  "known_hash content_hash ix =
     (content_hash \<in> set (map (fst \<circ> rec_chunk) (lexical_index ix @ vector_store ix)))"

definition upload ::
  "nat \<Rightarrow> js_string \<Rightarrow> nat \<Rightarrow> store_outcomes \<Rightarrow> indexes \<Rightarrow> (pipeline_error + nat) \<times> indexes" where
  "upload content_hash doc n outcomes ix =
     (if known_hash content_hash ix then (Inr n, ix)
      else
        (let recs = chunk_records content_hash doc n;
             ids = map rec_chunk recs
         in if vector_write_ok outcomes
            then
              (let ix1 = ix\<lparr>vector_store := upsert recs (vector_store ix)\<rparr>
               in if lexical_write_ok outcomes
                  then (Inr n, ix1\<lparr>lexical_index := upsert recs (lexical_index ix)\<rparr>)
                  else if compensation_ok outcomes
                  then (Inl StoreWriteFailed,
                        ix1\<lparr>vector_store := remove_chunks ids (vector_store ix1)\<rparr>)
                  else (Inl IndexConsistencyError, ix1))
            else if lexical_write_ok outcomes
            then
              (let ix1 = ix\<lparr>lexical_index := upsert recs (lexical_index ix)\<rparr>
               in if compensation_ok outcomes
                  then (Inl StoreWriteFailed,
                        ix1\<lparr>lexical_index := remove_chunks ids (lexical_index ix1)\<rparr>)
                  else (Inl IndexConsistencyError, ix1))
            else (Inl StoreWriteFailed, ix)))"

definition delete_document :: "js_string \<Rightarrow> indexes \<Rightarrow> (pipeline_error + unit) \<times> indexes" where
  "delete_document doc ix =
     (let ids = map rec_chunk
                  (filter (\<lambda>r. rec_doc r = doc) (lexical_index ix @ vector_store ix))
      in if ids = [] then (Inl NotFoundError, ix)
         else (Inr (),
               ix\<lparr>lexical_index := remove_chunks ids (lexical_index ix),
                  vector_store := remove_chunks ids (vector_store ix)\<rparr>))"

definition query ::
  "js_string option \<Rightarrow> indexes \<Rightarrow> (index_record list \<times> index_record list) \<times> indexes" where
  "query doc_filter ix =
     (let keep = (\<lambda>r. case doc_filter of None \<Rightarrow> True | Some d \<Rightarrow> rec_doc r = d)
      in ((filter keep (lexical_index ix), filter keep (vector_store ix)), ix))"

section \<open>Example data\<close>

definition chat0 :: chat_state where
  "chat0 = \<lparr>messages = [], inputValue = js '' hi '', loading = False\<rparr>"

definition answering :: "ask_request \<Rightarrow> ask_response settled" where
  "answering body =
     Fulfilled \<lparr>answer = js ''ok'',
                sources = [\<lparr>src_doc_name = js ''a.pdf'', src_page = 3,
                            src_toc_section = js ''1.2'', src_confidence = 1 / 2\<rparr>]\<rparr>"


definition sample_doc :: "string \<Rightarrow> nat \<Rightarrow> document" where
  "sample_doc nm n = \<lparr>name = js nm, collections = Some (replicate n (js ''c'')), chunk_count = Some 12\<rparr>"

definition lexical0 :: "(chunk_id \<times> real) list" where
  "lexical0 = [((1, 0), 2), ((1, 1), 4), ((2, 0), 6)]"

definition vector0 :: "(chunk_id \<times> real) list" where
  "vector0 = [((1, 1), 1 / 2), ((3, 0), 1)]"

section \<open>Invariants of the upload routine\<close>

declare fill.simps [simp del] uploadLoop.simps [simp del]

lemma updateByName_length [simp]: "length (updateByName nm f prev) = length prev"
  by (simp add: updateByName_def)

lemma updateByName_nth:
  "i < length prev \<Longrightarrow>
   updateByName nm f prev ! i = (if q_name (prev ! i) = nm then f (prev ! i) else prev ! i)"
  by (simp add: updateByName_def)

lemma startUpload_Cons:
  "pending st = i # rest \<Longrightarrow>
   startUpload queue st =
     st\<lparr>pending := rest, active := insert i (active st),
        requests := requests st @ [q_file (queue ! i)],
        uploadQueue := updateByName (q_name (queue ! i)) (\<lambda>q. q\<lparr>q_status := Uploading\<rparr>)
                         (uploadQueue st)\<rparr>"
  by (simp add: startUpload_def)

lemma reachable_structure:
  "reachable queue m st \<Longrightarrow>
   finite (active st) \<and> card (active st) \<le> m \<and>
   (\<exists>k\<le>length queue. pending st = [k..<length queue] \<and>
      requests st = map q_file (take k queue) \<and> active st \<subseteq> {..<k})"
proof (induction rule: reachable.induct)
  case init
  show ?case by (auto simp: initState_def intro: exI[of _ 0])
next
  case (start st)
  then obtain k where k: "k \<le> length queue" "pending st = [k..<length queue]"
    "requests st = map q_file (take k queue)" "active st \<subseteq> {..<k}" by blast
  from start.hyps(3) k have lt: "k < length queue" by simp
  then have pk: "pending st = k # [Suc k..<length queue]" using k by (simp add: upt_conv_Cons)
  have fin: "finite (active st)" using start.IH by simp
  have "card (insert k (active st)) \<le> Suc (card (active st))"
    using fin by (simp add: card_insert_if)
  then have c: "card (insert k (active st)) \<le> m" using start.hyps(2) by simp
  have "Suc k \<le> length queue \<and> pending (startUpload queue st) = [Suc k..<length queue] \<and>
      requests (startUpload queue st) = map q_file (take (Suc k) queue) \<and>
      active (startUpload queue st) \<subseteq> {..<Suc k}"
    using lt k(1,3,4) by (auto simp: startUpload_Cons[OF pk] take_Suc_conv_app_nth)
  moreover have "finite (active (startUpload queue st)) \<and> card (active (startUpload queue st)) \<le> m"
    using fin c by (simp add: startUpload_Cons[OF pk])
  ultimately show ?case by blast
next
  case (event st ev)
  then obtain k where k: "k \<le> length queue" "pending st = [k..<length queue]"
    "requests st = map q_file (take k queue)" "active st \<subseteq> {..<k}" by blast
  have fin: "finite (active st)" and c: "card (active st) \<le> m" using event.IH by simp_all
  have sub: "active (uploadEvent queue ev st) \<subseteq> active st"
    by (cases ev) auto
  have same: "pending (uploadEvent queue ev st) = pending st"
    "requests (uploadEvent queue ev st) = requests st"
    by (cases ev; simp)+
  have "card (active (uploadEvent queue ev st)) \<le> card (active st)"
    using sub fin by (rule card_mono[rotated])
  with c fin sub k same show ?case
    by (metis (no_types, lifting) dual_order.trans finite_subset)
qed

lemma reachable_names:
  "reachable queue m st \<Longrightarrow>
   length (uploadQueue st) = length queue \<and>
   (\<forall>i<length queue. q_name (uploadQueue st ! i) = q_name (queue ! i) \<and>
                      q_file (uploadQueue st ! i) = q_file (queue ! i))"
proof (induction rule: reachable.induct)
  case init
  show ?case by (simp add: initState_def)
next
  case (start st)
  then show ?case
    by (auto simp: startUpload_def updateByName_nth split: list.splits)
next
  case (event st ev)
  then show ?case
    by (cases ev) (auto simp: updateByName_nth)
qed


lemma reachable_status_owner:
  "reachable queue m st \<Longrightarrow> i < length queue \<Longrightarrow>
   q_status (uploadQueue st ! i) = Waiting \<or> q_status (uploadQueue st ! i) = Uploading \<Longrightarrow>
   \<exists>j<length queue. q_name (queue ! j) = q_name (queue ! i) \<and>
                      (j \<in> set (pending st) \<or> j \<in> active st)"
proof (induction arbitrary: i rule: reachable.induct)
  case init
  then show ?case by (auto simp: initState_def)
next
  case (start st)
  note nm = reachable_names[OF start.hyps(1)]
  from start.hyps(3) obtain k rest where pk: "pending st = k # rest" by (cases "pending st") auto
  show ?case
  proof (cases "q_name (queue ! i) = q_name (queue ! k)")
    case True
    from reachable_structure[OF start.hyps(1)] pk have "k < length queue"
      by (metis atLeastLessThan_iff list.set_intros(1) set_upt)
    then show ?thesis using True pk by (auto simp: startUpload_def)
  next
    case False
    then have "q_status (uploadQueue st ! i) = q_status (uploadQueue (startUpload queue st) ! i)"
      using nm start.prems(1) pk by (simp add: startUpload_def updateByName_nth)
    with start.IH[OF start.prems(1)] start.prems(2) obtain j where
      j: "j < length queue" "q_name (queue ! j) = q_name (queue ! i)"
         "j \<in> set (pending st) \<or> j \<in> active st" by auto
    with False have "j \<noteq> k" by auto
    with j pk show ?thesis by (auto simp: startUpload_def)
  qed
next
  case (event st ev)
  note nm = reachable_names[OF event.hyps(1)]
  show ?case
  proof (cases "uploadEvent queue ev st = st")
    case True
    then show ?thesis using event by simp
  next
    case False
    show ?thesis
    proof (cases ev)
      case (Progress k p)
      with False have "k \<in> active st" by (auto split: if_splits)
      then have "q_status (uploadQueue (uploadEvent queue ev st) ! i) = q_status (uploadQueue st ! i)"
        using Progress nm event.prems(1) by (simp add: updateByName_nth)
      with event.IH[OF event.prems(1)] event.prems(2) show ?thesis
        using Progress by auto
    next
      case (Resolved k)
      with False have ka: "k \<in> active st" by (auto split: if_splits)
      show ?thesis
      proof (cases "q_name (queue ! i) = q_name (queue ! k)")
        case True
        then have "q_status (uploadQueue (uploadEvent queue ev st) ! i) = Completed"
          using Resolved ka nm event.prems(1) by (simp add: updateByName_nth)
        with event.prems(2) show ?thesis by simp
      next
        case F: False
        then have "q_status (uploadQueue (uploadEvent queue ev st) ! i) = q_status (uploadQueue st ! i)"
          using Resolved ka nm event.prems(1) by (simp add: updateByName_nth)
        with event.IH[OF event.prems(1)] event.prems(2) obtain j where
          j: "j < length queue" "q_name (queue ! j) = q_name (queue ! i)"
             "j \<in> set (pending st) \<or> j \<in> active st" by auto
        with F have "j \<noteq> k" by auto
        with j Resolved ka show ?thesis by auto
      qed
    next
      case (Rejected k msg)
      with False have ka: "k \<in> active st" by (auto split: if_splits)
      show ?thesis
      proof (cases "q_name (queue ! i) = q_name (queue ! k)")
        case True
        then have "q_status (uploadQueue (uploadEvent queue ev st) ! i) = Error"
          using Rejected ka nm event.prems(1) by (simp add: updateByName_nth)
        with event.prems(2) show ?thesis by simp
      next
        case F: False
        then have "q_status (uploadQueue (uploadEvent queue ev st) ! i) = q_status (uploadQueue st ! i)"
          using Rejected ka nm event.prems(1) by (simp add: updateByName_nth)
        with event.IH[OF event.prems(1)] event.prems(2) obtain j where
          j: "j < length queue" "q_name (queue ! j) = q_name (queue ! i)"
             "j \<in> set (pending st) \<or> j \<in> active st" by auto
        with F have "j \<noteq> k" by auto
        with j Rejected ka show ?thesis by auto
      qed
    qed
  qed
qed


lemma reachable_status_distinct:
  "reachable queue m st \<Longrightarrow> distinct (map q_name queue) \<Longrightarrow>
   \<forall>q\<in>set queue. q_status q = Waiting \<Longrightarrow> i < length queue \<Longrightarrow>
   (q_status (uploadQueue st ! i) = Waiting \<longleftrightarrow> i \<in> set (pending st)) \<and>
   (q_status (uploadQueue st ! i) = Uploading \<longleftrightarrow> i \<in> active st)"
proof (induction arbitrary: i rule: reachable.induct)
  case init
  then show ?case by (simp add: initState_def)
next
  case (start st)
  note nm = reachable_names[OF start.hyps(1)]
  from reachable_structure[OF start.hyps(1)] obtain k where
    k: "k \<le> length queue" "pending st = [k..<length queue]" "active st \<subseteq> {..<k}" by blast
  from start.hyps(3) k have lt: "k < length queue" by simp
  then have pk: "pending st = k # [Suc k..<length queue]" using k by (simp add: upt_conv_Cons)
  have eq: "q_name (queue ! i) = q_name (queue ! k) \<longleftrightarrow> i = k"
    using start.prems(1,3) lt by (metis length_map nth_eq_iff_index_eq nth_map)
  have ih: "(q_status (uploadQueue st ! i) = Waiting \<longleftrightarrow> i \<in> set (pending st)) \<and>
        (q_status (uploadQueue st ! i) = Uploading \<longleftrightarrow> i \<in> active st)"
    using start.IH[OF start.prems] .
  show ?case
  proof (cases "i = k")
    case True
    then show ?thesis using nm lt by (simp add: startUpload_Cons[OF pk] updateByName_nth)
  next
    case False
    then have "q_status (uploadQueue (startUpload queue st) ! i) = q_status (uploadQueue st ! i)"
      using nm start.prems(3) eq by (simp add: startUpload_Cons[OF pk] updateByName_nth)
    moreover have "i \<in> set (pending (startUpload queue st)) \<longleftrightarrow> i \<in> set (pending st)"
      using False pk by (simp add: startUpload_Cons[OF pk])
    moreover have "i \<in> active (startUpload queue st) \<longleftrightarrow> i \<in> active st"
      using False by (simp add: startUpload_Cons[OF pk])
    ultimately show ?thesis using ih by simp
  qed
next
  case (event st ev)
  note nm = reachable_names[OF event.hyps(1)]
  from reachable_structure[OF event.hyps(1)] obtain k where
    k: "k \<le> length queue" "pending st = [k..<length queue]" "active st \<subseteq> {..<k}" by blast
  have ih: "(q_status (uploadQueue st ! i) = Waiting \<longleftrightarrow> i \<in> set (pending st)) \<and>
        (q_status (uploadQueue st ! i) = Uploading \<longleftrightarrow> i \<in> active st)"
    using event.IH[OF event.prems] .
  have eq: "j \<in> active st \<Longrightarrow> q_name (queue ! i) = q_name (queue ! j) \<longleftrightarrow> i = j" for j
  proof -
    assume "j \<in> active st"
    with k have "j < length queue" by auto
    then show ?thesis
      using event.prems(1,3) by (metis length_map nth_eq_iff_index_eq nth_map)
  qed
  have np: "j \<in> active st \<Longrightarrow> j \<notin> set (pending st)" for j using k by auto
  show ?case
  proof (cases ev)
    case (Progress j p)
    then show ?thesis using ih nm event.prems(3) by (simp add: updateByName_nth)
  next
    case (Resolved j)
    then show ?thesis using ih nm event.prems(3) eq[of j] np[of j]
      by (auto simp: updateByName_nth)
  next
    case (Rejected j msg)
    then show ?thesis using ih nm event.prems(3) eq[of j] np[of j]
      by (auto simp: updateByName_nth)
  qed
qed

lemma start_forward:
  assumes r: "reachable queue m st" and d: "distinct (map q_name queue)"
    and w: "\<forall>q\<in>set queue. q_status q = Waiting"
    and g: "pending st \<noteq> []" and i: "i < length queue"
  shows "forward (q_status (uploadQueue st ! i)) (q_status (uploadQueue (startUpload queue st) ! i))"
proof -
  note nm = reachable_names[OF r]
  from g obtain k rest where pk: "pending st = k # rest" by (cases "pending st") auto
  show ?thesis
  proof (cases "q_name (queue ! i) = q_name (queue ! k)")
    case False
    then show ?thesis using nm i by (simp add: startUpload_Cons[OF pk] updateByName_nth forward_def)
  next
    case True
    from reachable_structure[OF r] pk have "k < length queue"
      by (metis atLeastLessThan_iff list.set_intros(1) set_upt)
    with True d i have "i = k" by (metis length_map nth_eq_iff_index_eq nth_map)
    with pk reachable_status_distinct[OF r d w i]
    have "q_status (uploadQueue st ! i) = Waiting" by simp
    then show ?thesis using True nm i by (simp add: startUpload_Cons[OF pk] updateByName_nth forward_def)
  qed
qed

lemma event_forward:
  assumes r: "reachable queue m st" and d: "distinct (map q_name queue)"
    and w: "\<forall>q\<in>set queue. q_status q = Waiting" and i: "i < length queue"
  shows "forward (q_status (uploadQueue st ! i)) (q_status (uploadQueue (uploadEvent queue ev st) ! i))"
proof -
  note nm = reachable_names[OF r]
  have up: "j \<in> active st \<Longrightarrow> q_name (queue ! i) = q_name (queue ! j) \<Longrightarrow>
            q_status (uploadQueue st ! i) = Uploading" for j
  proof -
    assume j: "j \<in> active st" and e: "q_name (queue ! i) = q_name (queue ! j)"
    from reachable_structure[OF r] j have "j < length queue" by auto
    with e d i have "i = j" by (metis length_map nth_eq_iff_index_eq nth_map)
    with j reachable_status_distinct[OF r d w i] show ?thesis by simp
  qed
  show ?thesis
  proof (cases ev)
    case (Progress j p)
    then show ?thesis using nm i by (simp add: updateByName_nth forward_def)
  next
    case (Resolved j)
    then show ?thesis using nm i up[of j] by (auto simp: updateByName_nth forward_def)
  next
    case (Rejected j msg)
    then show ?thesis using nm i up[of j] by (auto simp: updateByName_nth forward_def)
  qed
qed

lemma fill_reachable:
  "reachable queue m st \<Longrightarrow> reachable queue m (fill queue m st)"
proof (induction queue m st rule: fill.induct)
  case (1 queue maxConcurrent st)
  show ?case
  proof (cases "card (active st) < maxConcurrent \<and> pending st \<noteq> []")
    case True
    then have "reachable queue maxConcurrent (startUpload queue st)"
      using "1.prems" by (simp add: reachable.start)
    with "1.IH"[OF True] show ?thesis using True by (subst fill.simps) simp
  next
    case False
    then show ?thesis using "1.prems" by (subst fill.simps) auto
  qed
qed

lemma events_reachable:
  "reachable queue m st \<Longrightarrow> reachable queue m (foldl (\<lambda>s ev. uploadEvent queue ev s) st evs)"
  by (induction evs arbitrary: st) (simp_all add: reachable.event)

lemma uploadLoop_reachable:
  "reachable queue m st \<Longrightarrow> uploadLoop queue m script st = Some st' \<Longrightarrow>
   reachable queue m st' \<and> pending st' = [] \<and> card (active st') = 0"
proof (induction script arbitrary: st)
  case Nil
  then show ?case by (subst (asm) uploadLoop.simps) (auto split: if_splits)
next
  case (Cons evs rest)
  show ?case
  proof (cases "length (pending st) > 0 \<or> card (active st) > 0")
    case True
    with Cons.prems(2) have
      "uploadLoop queue m rest (foldl (\<lambda>s ev. uploadEvent queue ev s) (fill queue m st) evs) = Some st'"
      by (subst (asm) uploadLoop.simps) simp
    moreover have "reachable queue m (foldl (\<lambda>s ev. uploadEvent queue ev s) (fill queue m st) evs)"
      using Cons.prems(1) by (simp add: fill_reachable events_reachable)
    ultimately show ?thesis using Cons.IH by blast
  next
    case False
    with Cons.prems show ?thesis by (subst (asm) uploadLoop.simps) auto
  qed
qed

lemma finished_settled:
  assumes "uploadLoop queue m script (initState queue) = Some st'" and "x \<in> set (uploadQueue st')"
  shows "q_status x = Completed \<or> q_status x = Error"
proof -
  from uploadLoop_reachable[OF reachable.init assms(1)]
  have r: "reachable queue m st'" and p: "pending st' = []" and c: "card (active st') = 0" by simp_all
  from reachable_structure[OF r] c have a: "active st' = {}" by simp
  from assms(2) obtain i where i: "i < length (uploadQueue st')" "x = uploadQueue st' ! i"
    by (auto simp: in_set_conv_nth)
  with reachable_names[OF r] have il: "i < length queue" by simp
  from reachable_status_owner[OF r il] p a
  have "\<not> (q_status (uploadQueue st' ! i) = Waiting \<or> q_status (uploadQueue st' ! i) = Uploading)"
    by auto
  with i show ?thesis by (cases "q_status x") auto
qed

text \<open>
  The routine returns when the requests settle: if every wait resolves all requests
  in flight, as many waits as there are files are enough.
\<close>

lemma resolve_all:
  "active (foldl (\<lambda>s ev. uploadEvent queue ev s) st (map Resolved xs)) = active st - set xs \<and>
   pending (foldl (\<lambda>s ev. uploadEvent queue ev s) st (map Resolved xs)) = pending st"
proof (induction xs arbitrary: st)
  case Nil
  show ?case by simp
next
  case (Cons x xs)
  have "active (uploadEvent queue (Resolved x) st) = active st - {x}"
    "pending (uploadEvent queue (Resolved x) st) = pending st" by auto
  with Cons[of "uploadEvent queue (Resolved x) st"] show ?case by auto
qed

lemma fill_pending_le:
  "length (pending (fill queue m st)) \<le> length (pending st)"
proof (induction queue m st rule: fill.induct)
  case (1 queue maxConcurrent st)
  show ?case
  proof (cases "card (active st) < maxConcurrent \<and> pending st \<noteq> []")
    case True
    then obtain i rest where p: "pending st = i # rest" by (cases "pending st") auto
    have "length (pending (startUpload queue st)) < length (pending st)"
      by (simp add: startUpload_Cons[OF p] p)
    with "1.IH"[OF True] show ?thesis using True by (subst fill.simps) simp
  next
    case False
    then show ?thesis by (subst fill.simps) auto
  qed
qed

lemma fill_pending_less:
  assumes "card (active st) < m" "pending st \<noteq> []"
  shows "length (pending (fill queue m st)) < length (pending st)"
proof -
  from assms obtain i rest where p: "pending st = i # rest" by (cases "pending st") auto
  have "length (pending (startUpload queue st)) < length (pending st)"
    by (simp add: startUpload_Cons[OF p] p)
  moreover have "fill queue m st = fill queue m (startUpload queue st)"
    using assms by (subst fill.simps) simp
  ultimately show ?thesis using fill_pending_le[of queue m "startUpload queue st"] by simp
qed

lemma uploadLoop_finishes:
  assumes "0 < m"
  shows "reachable queue m st \<Longrightarrow> active st = {} \<Longrightarrow> length (pending st) \<le> j \<Longrightarrow>
         \<exists>st'. uploadLoop queue m (replicate j (map Resolved [0..<length queue])) st = Some st'"
proof (induction j arbitrary: st)
  case 0
  then show ?case by (subst uploadLoop.simps) simp
next
  case (Suc j)
  let ?all = "map Resolved [0..<length queue]"
  show ?case
  proof (cases "pending st = []")
    case True
    with Suc.prems(2) show ?thesis by (subst uploadLoop.simps) simp
  next
    case False
    let ?st1 = "foldl (\<lambda>s ev. uploadEvent queue ev s) (fill queue m st) ?all"
    have r: "reachable queue m ?st1"
      using Suc.prems(1) by (simp add: fill_reachable events_reachable)
    from reachable_structure[OF fill_reachable[OF Suc.prems(1)]]
    have "active (fill queue m st) \<subseteq> {..<length queue}" by auto
    then have a: "active ?st1 = {}" using resolve_all[of queue "fill queue m st" "[0..<length queue]"]
      by auto
    have "length (pending (fill queue m st)) < length (pending st)"
      using fill_pending_less[of st m queue] False Suc.prems(2) assms by simp
    then have l: "length (pending ?st1) \<le> j"
      using resolve_all[of queue "fill queue m st" "[0..<length queue]"] Suc.prems(3) by simp
    from Suc.IH[OF r a l] obtain st' where
      "uploadLoop queue m (replicate j ?all) ?st1 = Some st'" by blast
    then show ?thesis using False by (subst uploadLoop.simps) simp
  qed
qed

lemma upload_routine_returns:
  assumes "0 < m"
  shows "\<exists>st'. uploadLoop queue m (replicate (length queue) (map Resolved [0..<length queue]))
           (initState queue) = Some st'"
proof -
  have a: "active (initState queue) = {}" and l: "length (pending (initState queue)) \<le> length queue"
    by (simp_all add: initState_def)
  show ?thesis by (rule uploadLoop_finishes[OF assms reachable.init a l])
qed

lemma initQueue_props:
  "length (initQueue fs) = length fs"
  "map q_file (initQueue fs) = fs"
  "map q_name (initQueue fs) = map file_name fs"
  "\<forall>q\<in>set (initQueue fs). q_status q = Waiting"
  by (simp_all add: initQueue_def comp_def)

lemma pdfFiles_props:
  "f \<in> set (pdfFiles files) \<Longrightarrow> f \<in> set files \<and> endsWith (file_name f) (js ''.pdf'')"
  by (simp add: pdfFiles_def)

lemma uploadLoop_requests:
  assumes "reachable (initQueue (pdfFiles files)) m st" and "f \<in> set (requests st)"
  shows "f \<in> set files \<and> endsWith (file_name f) (js ''.pdf'')"
proof -
  from reachable_structure[OF assms(1)] obtain k where
    "requests st = map q_file (take k (initQueue (pdfFiles files)))" by blast
  then have "requests st = take k (pdfFiles files)"
    by (simp add: take_map[symmetric] initQueue_props)
  with assms(2) have "f \<in> set (pdfFiles files)" by (auto dest: in_set_takeD)
  then show ?thesis by (rule pdfFiles_props)
qed

section \<open>Claims about the upload routine\<close>

text \<open>
  What the scheduler keeps for every batch: at most 5 requests are in flight at any
  time, and the requests are issued in the order of the selection: the files posted
  so far are a prefix of the PDF files, the rest is pending in order, and while a
  file is pending every later file is pending too and has no request in flight. The
  statuses shown follow the scheduler when the names are distinct: the entries shown
  as uploading are then the files in flight, and those shown as waiting the pending
  ones.
\<close>

theorem upload_cap_and_order:
  assumes "reachable (initQueue (pdfFiles files)) 5 st"
  shows "card (active st) \<le> 5 \<and>
    (\<exists>k\<le>length (pdfFiles files).
        requests st = take k (pdfFiles files) \<and>
        pending st = [k..<length (pdfFiles files)] \<and> active st \<subseteq> {..<k}) \<and>
    (\<forall>i j. i < j \<longrightarrow> j < length (pdfFiles files) \<longrightarrow> i \<in> set (pending st) \<longrightarrow>
        j \<in> set (pending st) \<and> j \<notin> active st) \<and>
    (distinct (map file_name (pdfFiles files)) \<longrightarrow>
       (\<forall>i<length (pdfFiles files).
          (q_status (uploadQueue st ! i) = Uploading \<longleftrightarrow> i \<in> active st) \<and>
          (q_status (uploadQueue st ! i) = Waiting \<longleftrightarrow> i \<in> set (pending st))))"
proof -
  let ?q = "initQueue (pdfFiles files)"
  from reachable_structure[OF assms] obtain k where
    c: "card (active st) \<le> 5" and k: "k \<le> length ?q" "pending st = [k..<length ?q]"
      "requests st = map q_file (take k ?q)" "active st \<subseteq> {..<k}" by blast
  have r: "requests st = take k (pdfFiles files)"
    using k(3) by (simp add: take_map[symmetric] initQueue_props)
  have A: "\<exists>k\<le>length (pdfFiles files).
        requests st = take k (pdfFiles files) \<and>
        pending st = [k..<length (pdfFiles files)] \<and> active st \<subseteq> {..<k}"
    using k r by (auto simp: initQueue_props)
  have B: "\<forall>i j. i < j \<longrightarrow> j < length (pdfFiles files) \<longrightarrow> i \<in> set (pending st) \<longrightarrow>
        j \<in> set (pending st) \<and> j \<notin> active st"
    using k by (auto simp: initQueue_props)
  have C: "distinct (map file_name (pdfFiles files)) \<longrightarrow>
       (\<forall>i<length (pdfFiles files).
          (q_status (uploadQueue st ! i) = Uploading \<longleftrightarrow> i \<in> active st) \<and>
          (q_status (uploadQueue st ! i) = Waiting \<longleftrightarrow> i \<in> set (pending st)))"
    using reachable_status_distinct[OF assms] by (simp add: initQueue_props)
  from c A B C show ?thesis by blast
qed

theorem upload_cap_and_order_witness:
  "reachable (initQueue (pdfFiles six)) 5
     (fill (initQueue (pdfFiles six)) 5 (initState (initQueue (pdfFiles six)))) \<and>
   card (active (fill (initQueue (pdfFiles six)) 5 (initState (initQueue (pdfFiles six))))) \<le> 5 \<and>
   active (fill (initQueue (pdfFiles six)) 5 (initState (initQueue (pdfFiles six)))) = {0, 1, 2, 3, 4} \<and>
   pending (fill (initQueue (pdfFiles six)) 5 (initState (initQueue (pdfFiles six)))) = [5] \<and>
   requests (fill (initQueue (pdfFiles six)) 5 (initState (initQueue (pdfFiles six)))) = take 5 six \<and>
   distinct (map file_name (pdfFiles six)) \<and>
   map q_status (uploadQueue (fill (initQueue (pdfFiles six)) 5 (initState (initQueue (pdfFiles six))))) =
     [Uploading, Uploading, Uploading, Uploading, Uploading, Waiting]"
proof -
  let ?st = "fill (initQueue (pdfFiles six)) 5 (initState (initQueue (pdfFiles six)))"
  have r: "reachable (initQueue (pdfFiles six)) 5 ?st"
    by (rule fill_reachable[OF reachable.init])
  from upload_cap_and_order[OF r] have c: "card (active ?st) \<le> 5" by blast
  have a: "active ?st = {0, 1, 2, 3, 4}" by code_simp
  have p: "pending ?st = [5]" by code_simp
  have q: "requests ?st = take 5 six" by code_simp
  have d: "distinct (map file_name (pdfFiles six))" by code_simp
  have s: "map q_status (uploadQueue ?st) =
     [Uploading, Uploading, Uploading, Uploading, Uploading, Waiting]" by code_simp
  from r c a p q d s show ?thesis by blast
qed

text \<open>
  Claim C1. Of a batch of PDF files, at most 5 are in the uploading state at any
  time, and no file enters the uploading state while an earlier file is waiting and
  a slot is free. The statuses of the upload queue do not keep this when two files of
  the batch share a name, because \<^verbatim>\<open>uploadFile\<close> marks every entry that has the name of
  its item. With \<^verbatim>\<open>a.pdf\<close> first and last of six files, the first pass of the inner
  loop starts five uploads and shows six entries as uploading. With \<^verbatim>\<open>a.pdf\<close> first
  and last of seven files, once the second upload has resolved four requests are in
  flight, a slot is free, the sixth file is waiting, and the seventh, still pending,
  is shown as uploading.
\<close>

theorem uploading_shown_beyond_cap:
  "pdfFiles twins = twins \<and>
   reachable (initQueue (pdfFiles twins)) 5
     (fill (initQueue (pdfFiles twins)) 5 (initState (initQueue (pdfFiles twins)))) \<and>
   card (active (fill (initQueue (pdfFiles twins)) 5 (initState (initQueue (pdfFiles twins))))) = 5 \<and>
   map q_status
     (uploadQueue (fill (initQueue (pdfFiles twins)) 5 (initState (initQueue (pdfFiles twins))))) =
     [Uploading, Uploading, Uploading, Uploading, Uploading, Uploading] \<and>
   length (filter (\<lambda>x. q_status x = Uploading)
     (uploadQueue (fill (initQueue (pdfFiles twins)) 5 (initState (initQueue (pdfFiles twins)))))) = 6 \<and>
   pdfFiles seven = seven \<and>
   reachable (initQueue (pdfFiles seven)) 5
     (uploadEvent (initQueue (pdfFiles seven)) (Resolved 1)
        (fill (initQueue (pdfFiles seven)) 5 (initState (initQueue (pdfFiles seven))))) \<and>
   card (active (uploadEvent (initQueue (pdfFiles seven)) (Resolved 1)
        (fill (initQueue (pdfFiles seven)) 5 (initState (initQueue (pdfFiles seven)))))) = 4 \<and>
   pending (uploadEvent (initQueue (pdfFiles seven)) (Resolved 1)
        (fill (initQueue (pdfFiles seven)) 5 (initState (initQueue (pdfFiles seven))))) = [5, 6] \<and>
   map q_status (uploadQueue (uploadEvent (initQueue (pdfFiles seven)) (Resolved 1)
        (fill (initQueue (pdfFiles seven)) 5 (initState (initQueue (pdfFiles seven)))))) =
     [Uploading, Completed, Uploading, Uploading, Uploading, Waiting, Uploading]"
proof -
  let ?q = "initQueue (pdfFiles twins)"
  let ?s = "fill ?q 5 (initState ?q)"
  let ?q7 = "initQueue (pdfFiles seven)"
  let ?s7 = "uploadEvent ?q7 (Resolved 1) (fill ?q7 5 (initState ?q7))"
  have t: "pdfFiles twins = twins" by code_simp
  have r: "reachable ?q 5 ?s" by (rule fill_reachable[OF reachable.init])
  have c: "card (active ?s) = 5" by code_simp
  have m: "map q_status (uploadQueue ?s) =
     [Uploading, Uploading, Uploading, Uploading, Uploading, Uploading]" by code_simp
  have l: "length (filter (\<lambda>x. q_status x = Uploading) (uploadQueue ?s)) = 6" by code_simp
  have t7: "pdfFiles seven = seven" by code_simp
  have r7: "reachable ?q7 5 ?s7"
    by (rule reachable.event[OF fill_reachable[OF reachable.init]])
  have c7: "card (active ?s7) = 4" by code_simp
  have p7: "pending ?s7 = [5, 6]" by code_simp
  have m7: "map q_status (uploadQueue ?s7) =
     [Uploading, Completed, Uploading, Uploading, Uploading, Waiting, Uploading]" by code_simp
  from t r c m l t7 r7 c7 p7 m7 show ?thesis by blast
qed

text \<open>
  Claim C8. Only files whose name ends with \<^verbatim>\<open>.pdf\<close> are posted, in every state of
  the routine and in the report of the handler, and each is one of the selected
  files. When no selected file has such a name, the handler returns with no request
  made and \<^verbatim>\<open>uploadQueue\<close> as it was.
\<close>

theorem only_pdf_uploaded:
  "(\<forall>st. reachable (initQueue (pdfFiles files)) 5 st \<longrightarrow>
      (\<forall>f\<in>set (requests st). f \<in> set files \<and> endsWith (file_name f) (js ''.pdf''))) \<and>
   (\<forall>r. handleFileUpload files script uq = Some r \<longrightarrow>
      (\<forall>f\<in>set (posted r). f \<in> set files \<and> endsWith (file_name f) (js ''.pdf''))) \<and>
   (pdfFiles files = [] \<longrightarrow>
      (\<exists>a. handleFileUpload files script uq = Some \<lparr>alerts = a, posted = [], queueAfter = uq\<rparr>))"
proof (intro conjI allI impI)
  fix st assume "reachable (initQueue (pdfFiles files)) 5 st"
  then show "\<forall>f\<in>set (requests st). f \<in> set files \<and> endsWith (file_name f) (js ''.pdf'')"
    using uploadLoop_requests by blast
next
  fix r assume h: "handleFileUpload files script uq = Some r"
  show "\<forall>f\<in>set (posted r). f \<in> set files \<and> endsWith (file_name f) (js ''.pdf'')"
  proof (cases "length files = 0 \<or> length (pdfFiles files) = 0")
    case True
    with h have "posted r = []" by (auto simp: handleFileUpload_def split: if_splits)
    then show ?thesis by simp
  next
    case False
    with h obtain st summary where
      u: "uploadWithConcurrency (initQueue (pdfFiles files)) 5 script = Some (st, summary)"
      and p: "posted r = requests st"
      by (auto simp: handleFileUpload_def Let_def split: option.splits)
    from u have "uploadLoop (initQueue (pdfFiles files)) 5 script (initState (initQueue (pdfFiles files))) = Some st"
      by (auto simp: uploadWithConcurrency_def Let_def split: option.splits)
    from uploadLoop_reachable[OF reachable.init this]
    have "reachable (initQueue (pdfFiles files)) 5 st" by simp
    with p show ?thesis using uploadLoop_requests by metis
  qed
next
  assume "pdfFiles files = []"
  then show "\<exists>a. handleFileUpload files script uq = Some \<lparr>alerts = a, posted = [], queueAfter = uq\<rparr>"
    by (simp add: handleFileUpload_def)
qed

theorem only_pdf_uploaded_witness:
  "reachable (initQueue (pdfFiles mixed)) 5
     (fill (initQueue (pdfFiles mixed)) 5 (initState (initQueue (pdfFiles mixed)))) \<and>
   requests (fill (initQueue (pdfFiles mixed)) 5 (initState (initQueue (pdfFiles mixed)))) = [pdf ''a.pdf''] \<and>
   endsWith (file_name (pdf ''a.pdf'')) (js ''.pdf'') \<and>
   handleFileUpload mixed [[Resolved 0]] [] =
     Some \<lparr>alerts = [NonPdfExcluded 2, AllUploaded 0], posted = [pdf ''a.pdf''],
           queueAfter = [\<lparr>q_file = pdf ''a.pdf'', q_name = js ''a.pdf'', q_status = Completed,
                           q_progress = 100, q_error = None\<rparr>]\<rparr> \<and>
   pdfFiles [pdf ''notes.txt'', pdf ''B.PDF''] = [] \<and>
   handleFileUpload [pdf ''notes.txt'', pdf ''B.PDF''] [[Resolved 0]] [] =
     Some \<lparr>alerts = [OnlyPdfAllowed], posted = [], queueAfter = []\<rparr>"
proof -
  let ?st = "fill (initQueue (pdfFiles mixed)) 5 (initState (initQueue (pdfFiles mixed)))"
  have r: "reachable (initQueue (pdfFiles mixed)) 5 ?st"
    by (rule fill_reachable[OF reachable.init])
  have q: "requests ?st = [pdf ''a.pdf'']" by code_simp
  from only_pdf_uploaded[of mixed] r q
  have e: "endsWith (file_name (pdf ''a.pdf'')) (js ''.pdf'')" by simp
  have h: "handleFileUpload mixed [[Resolved 0]] [] =
     Some \<lparr>alerts = [NonPdfExcluded 2, AllUploaded 0], posted = [pdf ''a.pdf''],
           queueAfter = [\<lparr>q_file = pdf ''a.pdf'', q_name = js ''a.pdf'', q_status = Completed,
                           q_progress = 100, q_error = None\<rparr>]\<rparr>" by code_simp
  have n: "pdfFiles [pdf ''notes.txt'', pdf ''B.PDF''] = []" by code_simp
  from only_pdf_uploaded[of "[pdf ''notes.txt'', pdf ''B.PDF'']" "[[Resolved 0]]" "[]"] n
  obtain a where a: "handleFileUpload [pdf ''notes.txt'', pdf ''B.PDF''] [[Resolved 0]] [] =
     Some \<lparr>alerts = a, posted = [], queueAfter = []\<rparr>" by blast
  have "alerts (the (handleFileUpload [pdf ''notes.txt'', pdf ''B.PDF''] [[Resolved 0]] [])) =
     [OnlyPdfAllowed]" by code_simp
  with a have "handleFileUpload [pdf ''notes.txt'', pdf ''B.PDF''] [[Resolved 0]] [] =
     Some \<lparr>alerts = [OnlyPdfAllowed], posted = [], queueAfter = []\<rparr>" by simp
  with r q e h n show ?thesis by blast
qed

text \<open>
  Claim C9. The status of an entry of the upload queue is one of waiting, uploading,
  completed and error, moves only forward along
  \<^verbatim>\<open>waiting -> uploading -> (completed | error)\<close>, and is completed or error when the
  routine returns. The code does not keep the forward movement when two files of the
  batch share a name, because \<^verbatim>\<open>uploadFile\<close> updates every entry that has the name of
  its item. With \<^verbatim>\<open>a.pdf\<close> first and last of six files: when the first upload has
  resolved and the last one starts, the first entry goes from completed back to
  uploading; when the last one is then rejected, the first entry, whose upload
  succeeded, ends as error with the message of the other.
\<close>

theorem status_moves_backward:
  "reachable (initQueue (pdfFiles twins)) 5
     (uploadEvent (initQueue (pdfFiles twins)) (Resolved 0)
        (fill (initQueue (pdfFiles twins)) 5 (initState (initQueue (pdfFiles twins))))) \<and>
   card (active (uploadEvent (initQueue (pdfFiles twins)) (Resolved 0)
        (fill (initQueue (pdfFiles twins)) 5 (initState (initQueue (pdfFiles twins)))))) < 5 \<and>
   pending (uploadEvent (initQueue (pdfFiles twins)) (Resolved 0)
        (fill (initQueue (pdfFiles twins)) 5 (initState (initQueue (pdfFiles twins))))) \<noteq> [] \<and>
   q_status (uploadQueue
     (uploadEvent (initQueue (pdfFiles twins)) (Resolved 0)
        (fill (initQueue (pdfFiles twins)) 5 (initState (initQueue (pdfFiles twins))))) ! 0) =
     Completed \<and>
   q_status (uploadQueue
     (startUpload (initQueue (pdfFiles twins))
        (uploadEvent (initQueue (pdfFiles twins)) (Resolved 0)
           (fill (initQueue (pdfFiles twins)) 5 (initState (initQueue (pdfFiles twins)))))) ! 0) =
     Uploading \<and>
   \<not> forward
     (q_status (uploadQueue
        (uploadEvent (initQueue (pdfFiles twins)) (Resolved 0)
           (fill (initQueue (pdfFiles twins)) 5 (initState (initQueue (pdfFiles twins))))) ! 0))
     (q_status (uploadQueue
        (startUpload (initQueue (pdfFiles twins))
           (uploadEvent (initQueue (pdfFiles twins)) (Resolved 0)
              (fill (initQueue (pdfFiles twins)) 5 (initState (initQueue (pdfFiles twins)))))) ! 0)) \<and>
   map q_status (uploadQueue
     (uploadEvent (initQueue (pdfFiles twins)) (Rejected 5 (js ''timeout''))
        (startUpload (initQueue (pdfFiles twins))
           (uploadEvent (initQueue (pdfFiles twins)) (Resolved 0)
              (fill (initQueue (pdfFiles twins)) 5 (initState (initQueue (pdfFiles twins)))))))) =
     [Error, Uploading, Uploading, Uploading, Uploading, Error] \<and>
   q_error (uploadQueue
     (uploadEvent (initQueue (pdfFiles twins)) (Rejected 5 (js ''timeout''))
        (startUpload (initQueue (pdfFiles twins))
           (uploadEvent (initQueue (pdfFiles twins)) (Resolved 0)
              (fill (initQueue (pdfFiles twins)) 5 (initState (initQueue (pdfFiles twins))))))) ! 0) =
     Some (js ''timeout'')"
proof -
  let ?q = "initQueue (pdfFiles twins)"
  let ?s = "uploadEvent ?q (Resolved 0) (fill ?q 5 (initState ?q))"
  let ?e = "uploadEvent ?q (Rejected 5 (js ''timeout'')) (startUpload ?q ?s)"
  have r: "reachable ?q 5 ?s"
    by (rule reachable.event[OF fill_reachable[OF reachable.init]])
  have c: "card (active ?s) < 5" by code_simp
  have p: "pending ?s \<noteq> []" by code_simp
  have a: "q_status (uploadQueue ?s ! 0) = Completed" by code_simp
  have b: "q_status (uploadQueue (startUpload ?q ?s) ! 0) = Uploading" by code_simp
  have "\<not> forward Completed Uploading" by (simp add: forward_def)
  with a b have f: "\<not> forward (q_status (uploadQueue ?s ! 0))
                             (q_status (uploadQueue (startUpload ?q ?s) ! 0))" by simp
  have m: "map q_status (uploadQueue ?e) =
     [Error, Uploading, Uploading, Uploading, Uploading, Error]" by code_simp
  have g: "q_error (uploadQueue ?e ! 0) = Some (js ''timeout'')" by code_simp
  from r c p a b f m g show ?thesis by blast
qed

text \<open>
  What holds of the statuses for every batch: the status of every entry is one of
  waiting, uploading, completed and error, and when the routine returns every entry
  is completed or error. When the files have distinct names, a pass of the inner loop
  or an event leaves each status where it is or moves it along
  \<^verbatim>\<open>waiting -> uploading -> (completed | error)\<close>.
\<close>

theorem queue_status_progress:
  "(\<forall>st. reachable (initQueue fs) m st \<longrightarrow>
      (\<forall>x\<in>set (uploadQueue st).
         q_status x = Waiting \<or> q_status x = Uploading \<or> q_status x = Completed \<or>
         q_status x = Error)) \<and>
   (\<forall>st. uploadLoop (initQueue fs) m script (initState (initQueue fs)) = Some st \<longrightarrow>
      (\<forall>x\<in>set (uploadQueue st). q_status x = Completed \<or> q_status x = Error)) \<and>
   (distinct (map file_name fs) \<longrightarrow>
      (\<forall>st. reachable (initQueue fs) m st \<longrightarrow>
         (card (active st) < m \<and> pending st \<noteq> [] \<longrightarrow>
            (\<forall>i<length fs. forward (q_status (uploadQueue st ! i))
                                   (q_status (uploadQueue (startUpload (initQueue fs) st) ! i)))) \<and>
         (\<forall>ev. \<forall>i<length fs. forward (q_status (uploadQueue st ! i))
                                   (q_status (uploadQueue (uploadEvent (initQueue fs) ev st) ! i)))))"
proof (intro conjI allI impI ballI)
  fix st x
  show "q_status x = Waiting \<or> q_status x = Uploading \<or> q_status x = Completed \<or> q_status x = Error"
    by (cases "q_status x") simp_all
next
  fix st x
  assume "uploadLoop (initQueue fs) m script (initState (initQueue fs)) = Some st"
    and "x \<in> set (uploadQueue st)"
  then show "q_status x = Completed \<or> q_status x = Error" by (rule finished_settled)
next
  fix st i
  assume d: "distinct (map file_name fs)" and r: "reachable (initQueue fs) m st"
    and g: "card (active st) < m \<and> pending st \<noteq> []" and i: "i < length fs"
  show "forward (q_status (uploadQueue st ! i))
          (q_status (uploadQueue (startUpload (initQueue fs) st) ! i))"
    using start_forward[OF r] d g i by (simp add: initQueue_props)
next
  fix st ev i
  assume d: "distinct (map file_name fs)" and r: "reachable (initQueue fs) m st"
    and i: "i < length fs"
  show "forward (q_status (uploadQueue st ! i))
          (q_status (uploadQueue (uploadEvent (initQueue fs) ev st) ! i))"
    using event_forward[OF r] d i by (simp add: initQueue_props)
qed

theorem queue_status_progress_witness:
  "uploadLoop (initQueue six) 5
     [[Resolved 0, Rejected 1 (js ''timeout''), Resolved 2, Resolved 3, Resolved 4], [Resolved 5]]
     (initState (initQueue six)) \<noteq> None \<and>
   map_option (\<lambda>st. map q_status (uploadQueue st))
     (uploadLoop (initQueue six) 5
        [[Resolved 0, Rejected 1 (js ''timeout''), Resolved 2, Resolved 3, Resolved 4], [Resolved 5]]
        (initState (initQueue six))) =
     Some [Completed, Error, Completed, Completed, Completed, Completed] \<and>
   distinct (map file_name six) \<and>
   reachable (initQueue six) 5 (initState (initQueue six)) \<and>
   card (active (initState (initQueue six))) < 5 \<and> pending (initState (initQueue six)) \<noteq> [] \<and>
   forward (q_status (uploadQueue (initState (initQueue six)) ! 0))
           (q_status (uploadQueue (startUpload (initQueue six) (initState (initQueue six))) ! 0)) \<and>
   q_status (uploadQueue (startUpload (initQueue six) (initState (initQueue six))) ! 0) = Uploading"
proof -
  let ?script = "[[Resolved 0, Rejected 1 (js ''timeout''), Resolved 2, Resolved 3, Resolved 4], [Resolved 5]]"
  let ?q = "initQueue six"
  have run: "uploadLoop ?q 5 ?script (initState ?q) \<noteq> None" by code_simp
  have fin: "map_option (\<lambda>st. map q_status (uploadQueue st))
       (uploadLoop ?q 5 ?script (initState ?q)) =
     Some [Completed, Error, Completed, Completed, Completed, Completed]" by code_simp
  have d: "distinct (map file_name six)" by code_simp
  have r: "reachable ?q 5 (initState ?q)" by (rule reachable.init)
  have g: "card (active (initState ?q)) < 5 \<and> pending (initState ?q) \<noteq> []" by code_simp
  have l: "0 < length six" by code_simp
  from queue_status_progress[of six 5 ?script] d r g l
  have f: "forward (q_status (uploadQueue (initState ?q) ! 0))
           (q_status (uploadQueue (startUpload ?q (initState ?q)) ! 0))" by blast
  have u: "q_status (uploadQueue (startUpload ?q (initState ?q)) ! 0) = Uploading" by code_simp
  from run fin d r g f u show ?thesis by blast
qed

section \<open>Claims about the home page\<close>







text \<open>
  Claim C5. After a delete that the backend accepts, the document list is the
  previous list without the entries of that name, the others in their order; after
  a failed delete, and when the user does not confirm, the list is unchanged.
\<close>

theorem delete_removes_named:
  "handleDelete docName True (Fulfilled d) prev =
     (Some docName, filter (\<lambda>doc. name doc \<noteq> docName) prev) \<and>
   subseq (snd (handleDelete docName True (Fulfilled d) prev)) prev \<and>
   set (snd (handleDelete docName True (Fulfilled d) prev)) =
     {doc \<in> set prev. name doc \<noteq> docName} \<and>
   snd (handleDelete docName True (Failed e) prev) = prev \<and>
   handleDelete docName False r prev = (None, prev)"
  by (simp add: handleDelete_def rethrow_def interceptor_def)

theorem delete_removes_named_witness:
  "handleDelete (js ''a.pdf'') True (Fulfilled ())
     [sample_doc ''a.pdf'' 1, sample_doc ''b.pdf'' 1, sample_doc ''a.pdf'' 3, sample_doc ''c.pdf'' 0] =
     (Some (js ''a.pdf''), [sample_doc ''b.pdf'' 1, sample_doc ''c.pdf'' 0])"
proof -
  let ?docs = "[sample_doc ''a.pdf'' 1, sample_doc ''b.pdf'' 1, sample_doc ''a.pdf'' 3,
                sample_doc ''c.pdf'' 0]"
  have f: "filter (\<lambda>d. name d \<noteq> js ''a.pdf'') ?docs =
           [sample_doc ''b.pdf'' 1, sample_doc ''c.pdf'' 0]"
    by (simp add: sample_doc_def js_def)
  from delete_removes_named[of "js ''a.pdf''" "()" ?docs
      "\<lparr>err_code = None, err_message = []\<rparr>" "Fulfilled ()"]
  have "handleDelete (js ''a.pdf'') True (Fulfilled ()) ?docs =
          (Some (js ''a.pdf''), filter (\<lambda>d. name d \<noteq> js ''a.pdf'') ?docs)"
    by blast
  then show ?thesis unfolding f .
qed

text \<open>
  Claim C6. \<^verbatim>\<open>checkBackend\<close> never rejects and sets the status to connected when the
  health call is fulfilled, to disconnected when it is rejected, whatever the error;
  the Electron handler never rejects, and answers false when the fetch throws.
\<close>

theorem health_check_settles:
  "(\<exists>s. checkBackend http = Fulfilled s \<and> (s = Connected \<or> s = Disconnected)) \<and>
   checkBackend (Fulfilled d) = Fulfilled Connected \<and>
   checkBackend (Failed e) = Fulfilled Disconnected \<and>
   (\<exists>b. checkBackendStatus fetched = Fulfilled b) \<and>
   checkBackendStatus (Failed e) = Fulfilled False \<and>
   checkBackendStatus (Fulfilled response) = Fulfilled (ok response)"
proof -
  have 1: "\<exists>s. checkBackend http = Fulfilled s \<and> (s = Connected \<or> s = Disconnected)"
    by (cases http) (simp_all add: checkBackend_def checkHealth_def rethrow_def interceptor_def)
  have 2: "checkBackend (Fulfilled d) = Fulfilled Connected"
    by (simp add: checkBackend_def checkHealth_def rethrow_def interceptor_def)
  have 3: "checkBackend (Failed e) = Fulfilled Disconnected"
    by (simp add: checkBackend_def checkHealth_def rethrow_def interceptor_def)
  have 4: "\<exists>b. checkBackendStatus fetched = Fulfilled b"
    by (cases fetched) (auto simp: checkBackendStatus_def)
  have 5: "checkBackendStatus (Failed e) = Fulfilled False"
    "checkBackendStatus (Fulfilled response) = Fulfilled (ok response)"
    by (simp_all add: checkBackendStatus_def)
  from 1 2 3 4 5 show ?thesis by blast
qed

section \<open>Claims about the chat page\<close>



lemma handleSend_accepted:
  assumes "\<not> (trim (inputValue st) = [] \<or> loading st)"
  shows "handleSend backend docName now later st =
     (handleSendSettle
        (rethrow (interceptor (backend \<lparr>question = trim (inputValue st), doc_name = docName\<rparr>)))
        later
        (st\<lparr>inputValue := [],
            messages := messages st @
              [\<lparr>msg_type = User, content = trim (inputValue st), msg_sources = None,
                timestamp = now\<rparr>],
            loading := True\<rparr>),
      Some \<lparr>question = trim (inputValue st), doc_name = docName\<rparr>)"
  using assms by (simp add: handleSend_def handleSendStart_def askQuestion_def Let_def)

text \<open>
  Claim C3. An accepted send posts exactly the trimmed input as \<^verbatim>\<open>question\<close> and the
  page's document name as \<^verbatim>\<open>doc_name\<close>, which is the name in the route state or null
  when there is none (or it is empty). Of a fulfilled response the page keeps
  \<^verbatim>\<open>answer\<close> and \<^verbatim>\<open>sources\<close> in the assistant message, each source whole, and shows
  the document name, page and section of each source.
\<close>

theorem ask_request_and_response:
  assumes "\<not> (trim (inputValue st) = [] \<or> loading st)"
  shows
   "snd (handleSend backend (routeDocName sel) now later st) =
      Some \<lparr>question = trim (inputValue st), doc_name = routeDocName sel\<rparr> \<and>
    (routeDocName sel = None \<or> routeDocName sel = sel) \<and>
    (routeDocName sel = None \<longleftrightarrow> sel = None \<or> sel = Some []) \<and>
    (\<forall>response.
       backend \<lparr>question = trim (inputValue st), doc_name = routeDocName sel\<rparr> = Fulfilled response \<longrightarrow>
       last (messages (fst (handleSend backend (routeDocName sel) now later st))) =
         \<lparr>msg_type = Assistant, content = answer response,
          msg_sources = Some (sources response), timestamp = later\<rparr> \<and>
       renderSources (last (messages (fst (handleSend backend (routeDocName sel) now later st)))) =
         map (\<lambda>s. (src_doc_name s, src_page s, src_toc_section s)) (sources response))"
proof -
  note h = handleSend_accepted[OF assms, of backend "routeDocName sel" now later]
  have 1: "snd (handleSend backend (routeDocName sel) now later st) =
      Some \<lparr>question = trim (inputValue st), doc_name = routeDocName sel\<rparr>"
    by (simp add: h)
  have 2: "routeDocName sel = None \<or> routeDocName sel = sel"
    by (simp add: routeDocName_def split: option.splits)
  have 3: "routeDocName sel = None \<longleftrightarrow> sel = None \<or> sel = Some []"
    by (simp add: routeDocName_def split: option.splits)
  have 4: "\<forall>response.
       backend \<lparr>question = trim (inputValue st), doc_name = routeDocName sel\<rparr> = Fulfilled response \<longrightarrow>
       last (messages (fst (handleSend backend (routeDocName sel) now later st))) =
         \<lparr>msg_type = Assistant, content = answer response,
          msg_sources = Some (sources response), timestamp = later\<rparr> \<and>
       renderSources (last (messages (fst (handleSend backend (routeDocName sel) now later st)))) =
         map (\<lambda>s. (src_doc_name s, src_page s, src_toc_section s)) (sources response)"
    by (auto simp: h handleSendSettle_def rethrow_def interceptor_def renderSources_def)
  from 1 2 3 4 show ?thesis by blast
qed

theorem ask_request_and_response_witness:
  "\<not> (trim (inputValue chat0) = [] \<or> loading chat0) \<and>
   snd (handleSend answering (routeDocName (Some (js ''a.pdf''))) 1 2 chat0) =
     Some \<lparr>question = js ''hi'', doc_name = Some (js ''a.pdf'')\<rparr> \<and>
   snd (handleSend answering (routeDocName None) 1 2 chat0) =
     Some \<lparr>question = js ''hi'', doc_name = None\<rparr> \<and>
   last (messages (fst (handleSend answering (routeDocName (Some (js ''a.pdf''))) 1 2 chat0))) =
     \<lparr>msg_type = Assistant, content = js ''ok'',
      msg_sources = Some [\<lparr>src_doc_name = js ''a.pdf'', src_page = 3,
                            src_toc_section = js ''1.2'', src_confidence = 1 / 2\<rparr>],
      timestamp = 2\<rparr> \<and>
   renderSources
     (last (messages (fst (handleSend answering (routeDocName (Some (js ''a.pdf''))) 1 2 chat0)))) =
     [(js ''a.pdf'', 3, js ''1.2'')]"
proof -
  have pre: "\<not> (trim (inputValue chat0) = [] \<or> loading chat0)" by code_simp
  have t: "trim (inputValue chat0) = js ''hi''" by code_simp
  have r1: "routeDocName (Some (js ''a.pdf'')) = Some (js ''a.pdf'')" by code_simp
  have r2: "routeDocName None = None" by (simp add: routeDocName_def)
  have b: "answering body =
     Fulfilled \<lparr>answer = js ''ok'',
                sources = [\<lparr>src_doc_name = js ''a.pdf'', src_page = 3,
                            src_toc_section = js ''1.2'', src_confidence = 1 / 2\<rparr>]\<rparr>" for body
    by (simp add: answering_def)
  note A = ask_request_and_response[OF pre, of answering "Some (js ''a.pdf'')" 1 2]
  note B = ask_request_and_response[OF pre, of answering None 1 2]
  from A have 1: "snd (handleSend answering (routeDocName (Some (js ''a.pdf''))) 1 2 chat0) =
     Some \<lparr>question = js ''hi'', doc_name = Some (js ''a.pdf'')\<rparr>"
    by (simp add: t r1)
  from B have 2: "snd (handleSend answering (routeDocName None) 1 2 chat0) =
     Some \<lparr>question = js ''hi'', doc_name = None\<rparr>"
    by (simp add: t r2)
  from A b have 3: "last (messages (fst (handleSend answering (routeDocName (Some (js ''a.pdf''))) 1 2 chat0))) =
     \<lparr>msg_type = Assistant, content = js ''ok'',
      msg_sources = Some [\<lparr>src_doc_name = js ''a.pdf'', src_page = 3,
                            src_toc_section = js ''1.2'', src_confidence = 1 / 2\<rparr>],
      timestamp = 2\<rparr>"
    by simp
  from A b have 4: "renderSources
     (last (messages (fst (handleSend answering (routeDocName (Some (js ''a.pdf''))) 1 2 chat0)))) =
     [(js ''a.pdf'', 3, js ''1.2'')]"
    by (simp add: renderSources_def)
  from pre 1 2 3 4 show ?thesis by blast
qed



section \<open>Claims about the retrieval core\<close>

lemma ids_upsert:
  "rec_chunk ` set (upsert recs store) = rec_chunk ` set store \<union> rec_chunk ` set recs"
proof -
  have 1: "set (upsert recs store) =
           {x \<in> set store. rec_chunk x \<notin> rec_chunk ` set recs} \<union> set recs"
    by (auto simp: upsert_def)
  have 2: "rec_chunk ` {x \<in> set store. rec_chunk x \<notin> R} = rec_chunk ` set store - R" for R
    by blast
  show ?thesis unfolding 1 image_Un 2 by blast
qed

lemma ids_remove_chunks:
  "rec_chunk ` set (remove_chunks ids store) = rec_chunk ` set store - set ids"
  by (auto simp: remove_chunks_def)

lemma fresh_chunks:
  assumes "\<not> known_hash h ix"
  shows "rec_chunk ` set (chunk_records h doc n) \<inter> rec_chunk ` set (vector_store ix) = {}"
    and "rec_chunk ` set (chunk_records h doc n) \<inter> rec_chunk ` set (lexical_index ix) = {}"
proof -
  have "fst c = h" if "c \<in> rec_chunk ` set (chunk_records h doc n)" for c
    using that by (auto simp: chunk_records_def)
  moreover have "fst c \<noteq> h"
    if "c \<in> rec_chunk ` set (vector_store ix) \<union> rec_chunk ` set (lexical_index ix)" for c
    using that assms by (auto simp: known_hash_def)
  ultimately show
    "rec_chunk ` set (chunk_records h doc n) \<inter> rec_chunk ` set (vector_store ix) = {}"
    "rec_chunk ` set (chunk_records h doc n) \<inter> rec_chunk ` set (lexical_index ix) = {}"
    by blast+
qed

lemma delete_consistent: "consistent ix \<Longrightarrow> consistent (snd (delete_document doc ix))"
  by (simp add: delete_document_def Let_def consistent_def ids_remove_chunks)

lemma upload_consistent:
  assumes c: "consistent ix" and e: "fst (upload h doc n out ix) \<noteq> Inl IndexConsistencyError"
  shows "consistent (snd (upload h doc n out ix))"
proof (cases "known_hash h ix")
  case True
  then show ?thesis using c by (simp add: upload_def)
next
  case False
  note f = fresh_chunks[OF False, of doc n]
  show ?thesis
  proof (cases "vector_write_ok out")
    case v: True
    show ?thesis
    proof (cases "lexical_write_ok out")
      case True
      then show ?thesis using False v c by (simp add: upload_def Let_def consistent_def ids_upsert)
    next
      case l: False
      with e False v have "compensation_ok out" by (auto simp: upload_def Let_def split: if_splits)
      then show ?thesis using False v l c f
        by (auto simp: upload_def Let_def consistent_def ids_upsert ids_remove_chunks)
    qed
  next
    case v: False
    show ?thesis
    proof (cases "lexical_write_ok out")
      case True
      with e False v have "compensation_ok out" by (auto simp: upload_def Let_def split: if_splits)
      then show ?thesis using False v True c f
        by (auto simp: upload_def Let_def consistent_def ids_upsert ids_remove_chunks)
    next
      case False
      then show ?thesis using \<open>\<not> known_hash h ix\<close> v c by (simp add: upload_def Let_def)
    qed
  qed
qed

text \<open>
  An upload whose vector-store write succeeds, whose lexical-index write fails and
  whose compensating delete fails leaves the chunk in the vector store only.
\<close>

theorem partial_write_counterexample:
  "consistent \<lparr>lexical_index = [], vector_store = []\<rparr> \<and>
   fst (upload 1 (js ''a.pdf'') 1
          \<lparr>vector_write_ok = True, lexical_write_ok = False, compensation_ok = False\<rparr>
          \<lparr>lexical_index = [], vector_store = []\<rparr>) = Inl IndexConsistencyError \<and>
   \<not> consistent (snd (upload 1 (js ''a.pdf'') 1
          \<lparr>vector_write_ok = True, lexical_write_ok = False, compensation_ok = False\<rparr>
          \<lparr>lexical_index = [], vector_store = []\<rparr>))"
  by (simp add: consistent_def upload_def known_hash_def chunk_records_def upsert_def Let_def)

text \<open>
  Claim C4, amended. From indexes that hold the same chunk IDs, a deletion, a query
  and every upload that does not end in \<open>IndexConsistencyError\<close> lead to indexes that
  hold the same chunk IDs; an upload ends in that error exactly when one of the two
  writes fails and the compensating delete fails too.
\<close>

theorem dual_index_consistency:
  assumes "consistent ix"
  shows "consistent (snd (delete_document doc ix)) \<and>
         snd (query doc_filter ix) = ix \<and>
         (fst (upload h doc n out ix) \<noteq> Inl IndexConsistencyError \<longrightarrow>
            consistent (snd (upload h doc n out ix))) \<and>
         (fst (upload h doc n out ix) = Inl IndexConsistencyError \<longleftrightarrow>
            \<not> known_hash h ix \<and> vector_write_ok out \<noteq> lexical_write_ok out \<and>
            \<not> compensation_ok out)"
proof -
  have 1: "consistent (snd (delete_document doc ix))" using assms by (rule delete_consistent)
  have 2: "snd (query doc_filter ix) = ix" by (simp add: query_def Let_def)
  have 3: "fst (upload h doc n out ix) \<noteq> Inl IndexConsistencyError \<longrightarrow>
            consistent (snd (upload h doc n out ix))"
    using upload_consistent[OF assms] by blast
  have 4: "fst (upload h doc n out ix) = Inl IndexConsistencyError \<longleftrightarrow>
            \<not> known_hash h ix \<and> vector_write_ok out \<noteq> lexical_write_ok out \<and>
            \<not> compensation_ok out"
    by (auto simp: upload_def Let_def)
  from 1 2 3 4 show ?thesis by blast
qed

theorem dual_index_consistency_witness:
  "consistent \<lparr>lexical_index = [], vector_store = []\<rparr> \<and>
   upload 1 (js ''a.pdf'') 2
     \<lparr>vector_write_ok = True, lexical_write_ok = True, compensation_ok = True\<rparr>
     \<lparr>lexical_index = [], vector_store = []\<rparr> =
     (Inr 2, \<lparr>lexical_index = chunk_records 1 (js ''a.pdf'') 2,
              vector_store = chunk_records 1 (js ''a.pdf'') 2\<rparr>) \<and>
   consistent (snd (upload 1 (js ''a.pdf'') 2
     \<lparr>vector_write_ok = True, lexical_write_ok = True, compensation_ok = True\<rparr>
     \<lparr>lexical_index = [], vector_store = []\<rparr>)) \<and>
   fst (upload 1 (js ''a.pdf'') 2
     \<lparr>vector_write_ok = True, lexical_write_ok = False, compensation_ok = True\<rparr>
     \<lparr>lexical_index = [], vector_store = []\<rparr>) = Inl StoreWriteFailed \<and>
   consistent (snd (upload 1 (js ''a.pdf'') 2
     \<lparr>vector_write_ok = True, lexical_write_ok = False, compensation_ok = True\<rparr>
     \<lparr>lexical_index = [], vector_store = []\<rparr>))"
proof -
  let ?ix = "\<lparr>lexical_index = [], vector_store = []\<rparr>"
  let ?ok = "\<lparr>vector_write_ok = True, lexical_write_ok = True, compensation_ok = True\<rparr>"
  let ?half = "\<lparr>vector_write_ok = True, lexical_write_ok = False, compensation_ok = True\<rparr>"
  have c: "consistent ?ix" by (simp add: consistent_def)
  have u: "upload 1 (js ''a.pdf'') 2 ?ok ?ix =
     (Inr 2, \<lparr>lexical_index = chunk_records 1 (js ''a.pdf'') 2,
              vector_store = chunk_records 1 (js ''a.pdf'') 2\<rparr>)"
    by (simp add: upload_def known_hash_def upsert_def Let_def)
  have f: "fst (upload 1 (js ''a.pdf'') 2 ?half ?ix) = Inl StoreWriteFailed"
    by (simp add: upload_def known_hash_def Let_def)
  from dual_index_consistency[OF c, where h = 1 and doc = "js ''a.pdf''" and n = 2 and out = ?ok] u
  have 1: "consistent (snd (upload 1 (js ''a.pdf'') 2 ?ok ?ix))" by simp
  from dual_index_consistency[OF c, where h = 1 and doc = "js ''a.pdf''" and n = 2 and out = ?half] f
  have 2: "consistent (snd (upload 1 (js ''a.pdf'') 2 ?half ?ix))" by simp
  from c u 1 f 2 show ?thesis by blast
qed

lemma normalize_arith:
  fixes s v a b flat :: real
  assumes "a \<le> b" "s \<le> v" "0 \<le> flat" "flat \<le> 1"
  shows "(if max s b = min s a then flat else (s - min s a) / (max s b - min s a)) \<le>
         (if max v b = min v a then flat else (v - min v a) / (max v b - min v a))"
proof -
  consider (A) "s \<le> a" "v \<le> a" | (B) "s \<le> a" "a < v" | (C) "a < s"
    by linarith
  then show ?thesis
  proof cases
    case A
    then have "min s a = s" "min v a = v" by simp_all
    moreover have "max s b = b" "max v b = b" using A assms(1) by simp_all
    ultimately show ?thesis using assms A by auto
  next
    case B
    then have ms: "min s a = s" and mv: "min v a = a" by simp_all
    have L: "(if max s b = min s a then flat else (s - min s a) / (max s b - min s a)) \<le> flat"
      using ms assms(3) by simp
    have R: "(if max s b = min s a then flat else (s - min s a) / (max s b - min s a)) \<le>
             (v - a) / (max v b - a)" if "max v b \<noteq> a"
    proof -
      have "0 \<le> (v - a) / (max v b - a)" using B assms(1) by (simp add: max_def)
      moreover have "(if max s b = min s a then flat else (s - min s a) / (max s b - min s a)) \<le> 1"
        using ms assms(4) by simp
      moreover have "(if max s b = min s a then flat else (s - min s a) / (max s b - min s a)) =
                     (if b = s then flat else 0)" using ms B assms(1) by (simp add: max_def)
      moreover have "flat \<le> (v - a) / (max v b - a)" if "b = s"
      proof -
        from that B assms(1) have "a = b" by simp
        with B have "max v b = v" by simp
        with B show ?thesis using assms(4) by simp
      qed
      ultimately show ?thesis by (simp split: if_splits)
    qed
    show ?thesis using B mv R by (simp add: max_def split: if_splits)
  next
    case C
    with assms(2) have av: "a < v" by simp
    have ms: "min s a = a" and mv: "min v a = a" using C av by simp_all
    have ns: "max s b \<noteq> a" and nv: "max v b \<noteq> a" using C av by (simp_all add: max_def)
    have "(s - a) / (max s b - a) \<le> (v - a) / (max v b - a)"
    proof (cases "v \<le> b")
      case True
      then have "max s b = b" "max v b = b" using assms(2) by simp_all
      moreover have "a < b" using C True assms(2) by simp
      ultimately show ?thesis using assms(2) by (simp add: divide_right_mono)
    next
      case False
      then have 1: "(v - a) / (max v b - a) = 1" using av by (simp add: max_def)
      have "s - a \<le> max s b - a" by simp
      moreover have "0 < max s b - a" using C by (simp add: max_def)
      ultimately have "(s - a) / (max s b - a) \<le> 1" by simp
      with 1 show ?thesis by simp
    qed
    then show ?thesis using ms mv ns nv by simp
  qed
qed


lemma minmax_normalize_nth:
  assumes "i < length xs"
  shows "minmax_normalize flat xs ! i =
           (if Max (set xs) = Min (set xs) then flat
            else (xs ! i - Min (set xs)) / (Max (set xs) - Min (set xs)))"
proof -
  from assms have "xs \<noteq> []" by auto
  then show ?thesis using assms by (simp add: minmax_normalize_def Let_def)
qed

lemma minmax_normalize_length [simp]: "length (minmax_normalize flat xs) = length xs"
  by (simp add: minmax_normalize_def Let_def)

lemma minmax_normalize_mono:
  assumes i: "i < length xs" and le: "xs ! i \<le> v" and f: "0 \<le> flat" "flat \<le> 1"
  shows "minmax_normalize flat xs ! i \<le> minmax_normalize flat (xs[i := v]) ! i"
proof -
  define R where "R = set (take i xs) \<union> set (drop (Suc i) xs)"
  have fin: "finite R" by (simp add: R_def)
  have "xs = take i xs @ xs ! i # drop (Suc i) xs" using i by (rule id_take_nth_drop)
  then have "set xs = set (take i xs @ xs ! i # drop (Suc i) xs)" by simp
  then have sx: "set xs = insert (xs ! i) R" by (simp add: R_def)
  have "xs[i := v] = take i xs @ v # drop (Suc i) xs" using i by (rule upd_conv_take_nth_drop)
  then have sv: "set (xs[i := v]) = insert v R" by (simp add: R_def)
  have n1: "minmax_normalize flat xs ! i =
           (if Max (insert (xs ! i) R) = Min (insert (xs ! i) R) then flat
            else (xs ! i - Min (insert (xs ! i) R)) /
                 (Max (insert (xs ! i) R) - Min (insert (xs ! i) R)))"
    using minmax_normalize_nth[OF i, of flat] by (simp only: sx)
  have i': "i < length (xs[i := v])" using i by simp
  have n2: "minmax_normalize flat (xs[i := v]) ! i =
           (if Max (insert v R) = Min (insert v R) then flat
            else (v - Min (insert v R)) / (Max (insert v R) - Min (insert v R)))"
    using minmax_normalize_nth[OF i', of flat] i by (simp only: sv nth_list_update_eq)
  show ?thesis
  proof (cases "R = {}")
    case True
    then show ?thesis by (simp add: n1 n2)
  next
    case False
    have ab: "Min R \<le> Max R" using fin False by simp
    have m: "Min (insert x R) = min x (Min R)" "Max (insert x R) = max x (Max R)" for x
      using fin False by simp_all
    show ?thesis
      unfolding n1 n2 m using normalize_arith[OF ab le f] .
  qed
qed

lemma normalized_lookup:
  assumes "i < length stream" "distinct (map fst stream)"
  shows "map_of (normalize_stream flat stream) (fst (stream ! i)) =
           Some (minmax_normalize flat (map snd stream) ! i)"
proof -
  have "map_of (zip (map fst stream) (minmax_normalize flat (map snd stream))) (map fst stream ! i) =
        Some (minmax_normalize flat (map snd stream) ! i)"
    using assms by (intro map_of_zip_nth) simp_all
  then show ?thesis using assms(1) by (simp add: normalize_stream_def)
qed

lemma stream_score_mono:
  assumes i: "i < length stream" and d: "distinct (map fst stream)"
    and c: "stream ! i = (c, s)" and le: "s \<le> s'" and f: "0 \<le> flat" "flat \<le> 1"
    and w: "0 \<le> (w :: real)"
  shows "(case map_of (normalize_stream flat stream) c of None \<Rightarrow> 0 | Some x \<Rightarrow> w * x) \<le>
         (case map_of (normalize_stream flat (stream[i := (c, s')])) c of
            None \<Rightarrow> 0 | Some x \<Rightarrow> w * x)"
proof -
  let ?stream' = "stream[i := (c, s')]"
  have k: "map fst ?stream' = map fst stream"
    using i c by (simp add: map_update) (metis fst_conv list_update_id nth_map length_map)
  have v: "map snd ?stream' = (map snd stream)[i := s']" by (simp add: map_update)
  have i': "i < length ?stream'" using i by simp
  have d': "distinct (map fst ?stream')" using d k by simp
  have 1: "map_of (normalize_stream flat stream) c =
           Some (minmax_normalize flat (map snd stream) ! i)"
    using normalized_lookup[OF i d, of flat] c by simp
  have 2: "map_of (normalize_stream flat ?stream') c =
           Some (minmax_normalize flat ((map snd stream)[i := s']) ! i)"
    using normalized_lookup[OF i' d', of flat] i by (simp add: v)
  have "minmax_normalize flat (map snd stream) ! i \<le>
        minmax_normalize flat ((map snd stream)[i := s']) ! i"
    using i c le f by (intro minmax_normalize_mono) simp_all
  then show ?thesis using w by (simp add: 1 2 mult_left_mono)
qed

text \<open>
  Claim C7. With weights that are not negative, raising the lexical score of a
  candidate and leaving the vector stream as it is, or raising its vector score and
  leaving the lexical stream as it is, does not lower its fused score.
\<close>

theorem fusion_monotone:
  assumes "0 \<le> w_lexical" "0 \<le> w_vector" "0 \<le> flat" "flat \<le> 1" "s \<le> s'"
  shows
    "(i < length lexical \<and> distinct (map fst lexical) \<and> lexical ! i = (c, s) \<longrightarrow>
        fused_score flat w_lexical w_vector lexical vector c \<le>
        fused_score flat w_lexical w_vector (lexical[i := (c, s')]) vector c) \<and>
     (i < length vector \<and> distinct (map fst vector) \<and> vector ! i = (c, s) \<longrightarrow>
        fused_score flat w_lexical w_vector lexical vector c \<le>
        fused_score flat w_lexical w_vector lexical (vector[i := (c, s')]) c)"
proof (intro conjI impI)
  assume a: "i < length lexical \<and> distinct (map fst lexical) \<and> lexical ! i = (c, s)"
  then have "(case map_of (normalize_stream flat lexical) c of None \<Rightarrow> 0 | Some x \<Rightarrow> w_lexical * x) \<le>
         (case map_of (normalize_stream flat (lexical[i := (c, s')])) c of
            None \<Rightarrow> 0 | Some x \<Rightarrow> w_lexical * x)"
    using assms by (intro stream_score_mono) simp_all
  then show "fused_score flat w_lexical w_vector lexical vector c \<le>
        fused_score flat w_lexical w_vector (lexical[i := (c, s')]) vector c"
    by (simp add: fused_score_def)
next
  assume a: "i < length vector \<and> distinct (map fst vector) \<and> vector ! i = (c, s)"
  then have "(case map_of (normalize_stream flat vector) c of None \<Rightarrow> 0 | Some x \<Rightarrow> w_vector * x) \<le>
         (case map_of (normalize_stream flat (vector[i := (c, s')])) c of
            None \<Rightarrow> 0 | Some x \<Rightarrow> w_vector * x)"
    using assms by (intro stream_score_mono) simp_all
  then show "fused_score flat w_lexical w_vector lexical vector c \<le>
        fused_score flat w_lexical w_vector lexical (vector[i := (c, s')]) c"
    by (simp add: fused_score_def)
qed

theorem fusion_monotone_witness:
  "(0::real) \<le> 3 / 10 \<and> (0::real) \<le> 7 / 10 \<and> (0::real) \<le> 1 / 2 \<and> (1 / 2 :: real) \<le> 1 \<and>
   (4::real) \<le> 5 \<and>
   1 < length lexical0 \<and> distinct (map fst lexical0) \<and> lexical0 ! 1 = ((1, 1), 4) \<and>
   fused_score (1 / 2) (3 / 10) (7 / 10) lexical0 vector0 (1, 1) = 3 / 20 \<and>
   fused_score (1 / 2) (3 / 10) (7 / 10) (lexical0[1 := ((1, 1), 5)]) vector0 (1, 1) = 9 / 40 \<and>
   fused_score (1 / 2) (3 / 10) (7 / 10) lexical0 vector0 (1, 1) \<le>
   fused_score (1 / 2) (3 / 10) (7 / 10) (lexical0[1 := ((1, 1), 5)]) vector0 (1, 1)"
proof -
  have h: "(0::real) \<le> 3 / 10" "(0::real) \<le> 7 / 10" "(0::real) \<le> 1 / 2" "(1 / 2 :: real) \<le> 1"
    "(4::real) \<le> 5" by simp_all
  have p: "1 < length lexical0 \<and> distinct (map fst lexical0) \<and> lexical0 ! 1 = ((1, 1), 4)"
    by (simp add: lexical0_def)
  have a: "fused_score (1 / 2) (3 / 10) (7 / 10) lexical0 vector0 (1, 1) = 3 / 20"
    by (simp add: lexical0_def vector0_def fused_score_def normalize_stream_def
          minmax_normalize_def)
  have b: "fused_score (1 / 2) (3 / 10) (7 / 10) (lexical0[1 := ((1, 1), 5)]) vector0 (1, 1) = 9 / 40"
    by (simp add: lexical0_def vector0_def fused_score_def normalize_stream_def
          minmax_normalize_def)
  from fusion_monotone[OF h, of 1 lexical0 "(1, 1)" vector0] p
  have m: "fused_score (1 / 2) (3 / 10) (7 / 10) lexical0 vector0 (1, 1) \<le>
           fused_score (1 / 2) (3 / 10) (7 / 10) (lexical0[1 := ((1, 1), 5)]) vector0 (1, 1)"
    by blast
  from h p a b m show ?thesis by blast
qed

end
